theory Spec2Isabelle
  imports Complex_Main "HOL-Library.Word" "HOL-Library.Log_Nat"
begin

unbundle bit_operations_syntax

section \<open>Monoscope: a shallow embedding of main.go\<close>

text \<open>
  The program plays a video as coloured ASCII art: it asks the terminal for its size,
  starts a decoder that writes raw RGB24 frames to a pipe, and in one loop reads a frame,
  renders it and prints it. The embedding follows \<^verbatim>\<open>main.go\<close> function by function and
  keeps its names.

  Go's \<^verbatim>\<open>int\<close> is modelled as \<^typ>\<open>int\<close>: every integer of the program is a terminal
  dimension, a product of three small factors, a buffer offset or a frame counter, all
  far from the 64-bit limits. A \<^verbatim>\<open>uint8\<close> is an \<^typ>\<open>8 word\<close>, a \<^verbatim>\<open>uint32\<close> a
  \<^typ>\<open>32 word\<close>.
\<close>

type_synonym byte = "8 word"

subsection \<open>Errors and panics\<close>

text \<open>
  \<open>error\<close> stands for Go's \<^verbatim>\<open>error\<close> values: \<^verbatim>\<open>io.EOF\<close>, and any other error, told
  apart by its message. A call ends in one of three ways: it returns its value, it
  returns an error, or it panics; the last two are the constructors of \<open>failure\<close>.
\<close>

datatype error = EOF | OtherError string

datatype failure = Err error | Panic

definition error_string :: "error \<Rightarrow> string" where
  "error_string err = (case err of EOF \<Rightarrow> ''EOF'' | OtherError msg \<Rightarrow> msg)"

subsection \<open>Constants\<close>

definition ASCII_CHARS :: string where
  "ASCII_CHARS = '' .:-=+*#%@''"

definition FPS :: int where
  "FPS = 24"

definition ESC :: char where
  "ESC = CHR 0x1B"

definition LF :: char where
  "LF = CHR 0x0A"

subsection \<open>The geometry resolver\<close>

text \<open>
  \<^verbatim>\<open>term.GetSize\<close> belongs to a library; its result \<^verbatim>\<open>(width, height, err)\<close> is the argument
  of the model, with \<open>None\<close> for a nil error.
\<close>

definition getTerminalSize :: "int \<times> int \<times> error option \<Rightarrow> int \<times> int" where
  "getTerminalSize q =
     (case q of
        (width, height, Some err) \<Rightarrow> (160, 50)
      | (width, height, None) \<Rightarrow> (width, height - 2))"

subsection \<open>Formatting\<close>

text \<open>The verb \<^verbatim>\<open>%d\<close> of \<^verbatim>\<open>fmt\<close>: decimal digits, with a minus sign for a negative number.\<close>

fun itoa_nat :: "nat \<Rightarrow> string" where
  "itoa_nat n =
     (if n < 10 then [char_of (48 + n)] else itoa_nat (n div 10) @ [char_of (48 + n mod 10)])"

declare itoa_nat.simps [simp del]

definition fmt_d :: "int \<Rightarrow> string" where
  "fmt_d i = (if i < 0 then CHR ''-'' # itoa_nat (nat (- i)) else itoa_nat (nat i))"

definition rgbToAnsi :: "byte \<Rightarrow> byte \<Rightarrow> byte \<Rightarrow> string" where
  "rgbToAnsi r g b =
     ESC # ''[38;2;'' @ fmt_d (uint r) @ '';'' @ fmt_d (uint g) @ '';'' @ fmt_d (uint b) @ ''m''"

subsection \<open>Images\<close>

text \<open>
  The part of Go's \<^verbatim>\<open>image\<close> and \<^verbatim>\<open>image/color\<close> packages that the program uses. An
  \<^verbatim>\<open>image.RGBA\<close> is its rectangle and its pixel store; the store is a map from
  coordinates to colours instead of Go's byte slice with a stride. \<^verbatim>\<open>Set\<close> ignores a
  point outside the rectangle and \<^verbatim>\<open>At\<close> returns the zero colour there, as in Go.
  \<^verbatim>\<open>image.Rect\<close> orders its corners. The method \<^verbatim>\<open>RGBA()\<close> of a colour widens each
  channel to 16 bits by repeating the byte.
\<close>

record point =
  X :: int
  Y :: int

record rectangle =
  Min_pt :: point
  Max_pt :: point

datatype color = RGBA (cR: byte) (cG: byte) (cB: byte) (cA: byte)

record image =
  Rect :: rectangle
  Pix :: "int \<times> int \<Rightarrow> color"

definition image_Rect :: "int \<Rightarrow> int \<Rightarrow> int \<Rightarrow> int \<Rightarrow> rectangle" where
  "image_Rect x0 y0 x1 y1 =
     (let (x0, x1) = (if x0 > x1 then (x1, x0) else (x0, x1));
          (y0, y1) = (if y0 > y1 then (y1, y0) else (y0, y1))
      in \<lparr>Min_pt = \<lparr>X = x0, Y = y0\<rparr>, Max_pt = \<lparr>X = x1, Y = y1\<rparr>\<rparr>)"

definition point_In :: "int \<Rightarrow> int \<Rightarrow> rectangle \<Rightarrow> bool" where
  "point_In x y r \<longleftrightarrow>
     X (Min_pt r) \<le> x \<and> x < X (Max_pt r) \<and> Y (Min_pt r) \<le> y \<and> y < Y (Max_pt r)"

definition NewRGBA :: "rectangle \<Rightarrow> image" where
  "NewRGBA r = \<lparr>Rect = r, Pix = (\<lambda>p. RGBA 0 0 0 0)\<rparr>"

definition image_Set :: "image \<Rightarrow> int \<Rightarrow> int \<Rightarrow> color \<Rightarrow> image" where
  "image_Set img x y c =
     (if point_In x y (Rect img) then img\<lparr>Pix := (Pix img)((x, y) := c)\<rparr> else img)"

definition image_At :: "image \<Rightarrow> int \<Rightarrow> int \<Rightarrow> color" where
  "image_At img x y = (if point_In x y (Rect img) then Pix img (x, y) else RGBA 0 0 0 0)"

definition color_RGBA :: "color \<Rightarrow> 32 word \<times> 32 word \<times> 32 word \<times> 32 word" where
  "color_RGBA c =
     (let r = ucast (cR c); r = r OR push_bit 8 r;
          g = ucast (cG c); g = g OR push_bit 8 g;
          b = ucast (cB c); b = b OR push_bit 8 b;
          a = ucast (cA c); a = a OR push_bit 8 a
      in (r, g, b, a))"

subsection \<open>The byte stream and its buffered reader\<close>

text \<open>
  The decoder's pipe is an \<^verbatim>\<open>io.Reader\<close>: a call \<^verbatim>\<open>Read(p)\<close> copies some bytes into \<open>p\<close>
  and returns their number and an error. The pipe is modelled by the deliveries it is
  going to make: a list of chunks, each with the error it is delivered with (\<open>None\<close> for
  nil). A call with room for \<open>k\<close> bytes returns the next delivery; of a delivery longer
  than \<open>k\<close> it returns the first \<open>k\<close> bytes with a nil error and keeps the remainder,
  and its error, for the next call. When no delivery is left the stream is closed: the
  call returns no bytes and \<^verbatim>\<open>io.EOF\<close>.
\<close>

type_synonym stream = "(byte list \<times> error option) list"

fun stream_Read :: "stream \<Rightarrow> nat \<Rightarrow> (byte list \<times> error option) \<times> stream" where
  "stream_Read [] k = (([], Some EOF), [])"
| "stream_Read ((bs, e) # rest) k =
     (if length bs \<le> k then ((bs, e), rest)
      else ((take k bs, None), (drop k bs, e) # rest))"

text \<open>
  \<^verbatim>\<open>main\<close> reads the pipe through \<^verbatim>\<open>bufio.NewReader\<close>, a \<^verbatim>\<open>bufio.Reader\<close> with a buffer of
  4096 bytes. Its state is the part of the buffer not yet handed over
  (\<^verbatim>\<open>b.buf[b.r:b.w]\<close>), the error it has kept back (\<^verbatim>\<open>b.err\<close>) and the stream it reads
  (\<^verbatim>\<open>b.rd\<close>). Its method \<^verbatim>\<open>Read(p)\<close>, for \<open>k\<close> the length of \<open>p\<close>:
  \<^item> while the buffer holds bytes it hands over at most \<open>k\<close> of them, with a nil error;
  \<^item> with an empty buffer it first reports the error it has kept back, if any;
  \<^item> otherwise, asked for at least a buffer's size, it reads the stream straight into
    \<open>p\<close> and returns what that read returned, bytes and error together;
  \<^item> otherwise it reads the stream into its buffer, keeps the error of that read back
    and hands over at most \<open>k\<close> of the bytes with a nil error; only when that read
    delivered no byte does it return the error at once.
\<close>

definition defaultBufSize :: nat where
  "defaultBufSize = 4096"

record reader =
  Reader_buf :: "byte list"
  Reader_err :: "error option"
  Reader_rd :: stream

definition NewReader :: "stream \<Rightarrow> reader" where
  "NewReader s = \<lparr>Reader_buf = [], Reader_err = None, Reader_rd = s\<rparr>"

definition reader_Read :: "reader \<Rightarrow> nat \<Rightarrow> (byte list \<times> error option) \<times> reader" where
  "reader_Read b k =
     (if k = 0 then
        (if Reader_buf b \<noteq> [] then (([], None), b)
         else (([], Reader_err b), b\<lparr>Reader_err := None\<rparr>))
      else if Reader_buf b = [] then
        (if Reader_err b \<noteq> None then (([], Reader_err b), b\<lparr>Reader_err := None\<rparr>)
         else if k \<ge> defaultBufSize then
           (case stream_Read (Reader_rd b) k of
              ((bs, e), rd') \<Rightarrow> ((bs, e), b\<lparr>Reader_rd := rd'\<rparr>))
         else
           (case stream_Read (Reader_rd b) defaultBufSize of
              ((bs, e), rd') \<Rightarrow>
                if bs = [] then (([], e), b\<lparr>Reader_rd := rd'\<rparr>)
                else ((take k bs, None),
                      b\<lparr>Reader_buf := drop k bs, Reader_err := e, Reader_rd := rd'\<rparr>)))
      else ((take k (Reader_buf b), None), b\<lparr>Reader_buf := drop k (Reader_buf b)\<rparr>))"

subsection \<open>The frame deserializer\<close>

text \<open>
  The first loop of \<^verbatim>\<open>readRawFrame\<close>: \<open>data\<close> is the buffer, \<open>n\<close> the number of bytes
  accumulated. A read writes its bytes into \<^verbatim>\<open>data[n:]\<close>; its error is looked at before
  \<open>n\<close> is advanced.
\<close>

function read_loop :: "reader \<Rightarrow> byte list \<Rightarrow> nat \<Rightarrow> (error + byte list) \<times> reader" where
  "read_loop rd data n =
     (if n < length data then
        (case reader_Read rd (length data - n) of
           ((bs, Some err), rd') \<Rightarrow> (Inl err, rd')
         | ((bs, None), rd') \<Rightarrow>
             read_loop rd' (take n data @ bs @ drop (n + length bs) data) (n + length bs))
      else (Inr data, rd))"
  by pat_completeness auto
termination
proof (relation "measure (\<lambda>(rd, data, n). (length data - n) + length (Reader_rd rd))", goal_cases)
  case 1
  show ?case by simp
next
  case (2 rd data n x1 rd' bs e)
  let ?k = "length data - n"
  have k: "0 < ?k" using 2(1) by simp
  from 2 have r: "reader_Read rd ?k = ((bs, None), rd')" by simp
  have src: "length bs \<le> k \<and>
      (length rd1 < length s \<or> length rd1 = length s \<and> bs \<noteq> [] \<or> bs = [] \<and> e \<noteq> None)"
    if "stream_Read s k = ((bs, e), rd1)" "0 < k" for s k bs e rd1
    using that by (cases s) (auto split: if_splits)
  have "length bs \<le> ?k \<and>
        (0 < length bs \<and> length (Reader_rd rd') \<le> length (Reader_rd rd) \<or>
         length (Reader_rd rd') < length (Reader_rd rd))"
  proof (cases "Reader_buf rd = []")
    case False
    with r k show ?thesis by (auto simp: reader_Read_def)
  next
    case True
    show ?thesis
    proof (cases "defaultBufSize \<le> ?k")
      case direct: True
      obtain cs e1 s1 where s: "stream_Read (Reader_rd rd) ?k = ((cs, e1), s1)"
        by (metis surj_pair)
      from r True direct k s have "bs = cs" "Reader_rd rd' = s1" "e1 = None"
        by (auto simp: reader_Read_def split: if_splits)
      with src [OF s k] show ?thesis by auto
    next
      case buffered: False
      obtain cs e1 s1 where s: "stream_Read (Reader_rd rd) defaultBufSize = ((cs, e1), s1)"
        by (metis surj_pair)
      have d: "0 < defaultBufSize" by (simp add: defaultBufSize_def)
      from r True buffered k s have "bs = take ?k cs" "Reader_rd rd' = s1"
        "cs = [] \<longrightarrow> e1 = None"
        by (auto simp: reader_Read_def split: if_splits)
      with src [OF s d] k show ?thesis by auto
    qed
  qed
  with 2(1) show ?case by (simp del: length_greater_0_conv) linarith
qed

declare read_loop.simps [simp del]

text \<open>
  The second loop nest: pixel \<open>(x, y)\<close> is set from the three bytes at \<open>idx\<close>. An index
  beyond the buffer would panic.
\<close>

function set_row ::
  "image \<Rightarrow> byte list \<Rightarrow> int \<Rightarrow> int \<Rightarrow> int \<Rightarrow> nat \<Rightarrow> failure + image \<times> nat" where
  "set_row img data width y x idx =
     (if x < width then
        (if idx + 2 < length data then
           set_row (image_Set img x y (RGBA (data ! idx) (data ! (idx + 1)) (data ! (idx + 2)) 255))
             data width y (x + 1) (idx + 3)
         else Inl Panic)
      else Inr (img, idx))"
  by pat_completeness auto
termination
  by (relation "measure (\<lambda>(img, data, width, y, x, idx). nat (width - x))") auto

declare set_row.simps [simp del]

function set_rows ::
  "image \<Rightarrow> byte list \<Rightarrow> int \<Rightarrow> int \<Rightarrow> int \<Rightarrow> nat \<Rightarrow> failure + image" where
  "set_rows img data width height y idx =
     (if y < height then
        (case set_row img data width y 0 idx of
           Inl f \<Rightarrow> Inl f
         | Inr (img', idx') \<Rightarrow> set_rows img' data width height (y + 1) idx')
      else Inr img)"
  by pat_completeness auto
termination
  by (relation "measure (\<lambda>(img, data, width, height, y, idx). nat (height - y))") auto

declare set_rows.simps [simp del]

text \<open>
  \<^verbatim>\<open>make([]byte, n)\<close> panics for a negative \<open>n\<close>. The result is paired with the reader as
  the call leaves it.
\<close>

definition readRawFrame :: "reader \<Rightarrow> int \<Rightarrow> int \<Rightarrow> (failure + image) \<times> reader" where
  "readRawFrame rd width height =
     (let img = NewRGBA (image_Rect 0 0 width height) in
      if width * height * 3 < 0 then (Inl Panic, rd)
      else
        (case read_loop rd (replicate (nat (width * height * 3)) 0) 0 of
           (Inl err, rd') \<Rightarrow> (Inl (Err err), rd')
         | (Inr data, rd') \<Rightarrow> (set_rows img data width height 0 0, rd')))"

subsection \<open>Floating point\<close>

text \<open>
  A finite \<^verbatim>\<open>float64\<close> is the rational number it denotes. Every arithmetic operation
  computes the exact result and rounds it to the nearest \<^verbatim>\<open>float64\<close>, ties to the even
  significand (IEEE 754 binary64): the significand has 53 bits and the least exponent of
  the last place is \<open>-1074\<close>. Results beyond the largest \<^verbatim>\<open>float64\<close> are not modelled (no
  infinities); the program's values lie between 0 and 255.

  \<open>floor_log2 x\<close> is the exponent \<open>k\<close> with \<open>2 ^ k \<le> x < 2 ^ (k + 1)\<close>, for positive \<open>x\<close>;
  \<open>f64_exp x\<close> is the exponent of the last place of the \<^verbatim>\<open>float64\<close> values around \<open>x\<close>.
\<close>

definition floor_log2 :: "rat \<Rightarrow> int" where
  "floor_log2 x = (if 1 \<le> x then bitlen \<lfloor>x\<rfloor> - 1 else - bitlen (\<lceil>1 / x\<rceil> - 1))"

definition round_half_even :: "rat \<Rightarrow> int" where
  "round_half_even x =
     (let f = \<lfloor>x\<rfloor>; d = x - of_int f
      in if d < 1 / 2 then f else if 1 / 2 < d then f + 1 else if even f then f else f + 1)"

definition f64_exp :: "rat \<Rightarrow> int" where
  "f64_exp x = max (floor_log2 \<bar>x\<bar> - 52) (- 1074)"

definition f64_round :: "rat \<Rightarrow> rat" where
  "f64_round x =
     (if x = 0 then 0
      else of_int (round_half_even (x / 2 powi f64_exp x)) * 2 powi f64_exp x)"

definition f64_const :: "rat \<Rightarrow> rat" where
  "f64_const c = f64_round c"

definition f64_add :: "rat \<Rightarrow> rat \<Rightarrow> rat" where
  "f64_add a b = f64_round (a + b)"

definition f64_mul :: "rat \<Rightarrow> rat \<Rightarrow> rat" where
  "f64_mul a b = f64_round (a * b)"

definition f64_div :: "rat \<Rightarrow> rat \<Rightarrow> rat" where
  "f64_div a b = f64_round (a / b)"

text \<open>The fused multiply-add rounds once, after the sum.\<close>

definition f64_fma :: "rat \<Rightarrow> rat \<Rightarrow> rat \<Rightarrow> rat" where
  "f64_fma a b c = f64_round (a * b + c)"

definition f64_of_uint8 :: "byte \<Rightarrow> rat" where
  "f64_of_uint8 b = of_nat (unat b)"

text \<open>The conversion \<^verbatim>\<open>int(x)\<close> of a \<^verbatim>\<open>float64\<close> drops the fraction (towards zero).\<close>

definition int_of_f64 :: "rat \<Rightarrow> int" where
  "int_of_f64 x = (if 0 \<le> x then \<lfloor>x\<rfloor> else \<lceil>x\<rceil>)"

subsection \<open>The glyph renderer\<close>

text \<open>
  \<open>glyph_idx\<close> is the value of \<^verbatim>\<open>idx\<close> when \<^verbatim>\<open>brightnessToASCII\<close> indexes the gradient;
  indexing with a negative \<^verbatim>\<open>idx\<close> panics.
\<close>

definition glyph_idx :: "rat \<Rightarrow> int" where
  "glyph_idx brightness =
     (let idx = int_of_f64 (f64_mul brightness (of_int (int (length ASCII_CHARS) - 1)))
      in if idx \<ge> int (length ASCII_CHARS) then int (length ASCII_CHARS) - 1 else idx)"

definition brightnessToASCII :: "rat \<Rightarrow> failure + char" where
  "brightnessToASCII brightness =
     (let idx = glyph_idx brightness
      in if 0 \<le> idx \<and> idx < int (length ASCII_CHARS) then Inr (ASCII_CHARS ! nat idx)
         else Inl Panic)"

text \<open>
  The value of \<^verbatim>\<open>brightness\<close> in \<^verbatim>\<open>frameToASCII\<close>, for the channels of one pixel:
  \<^verbatim>\<open>(0.299*r + 0.587*g + 0.114*b) / 255.0\<close>. Go lets a compiler fuse a product and a sum
  \<^verbatim>\<open>x*y + z\<close> into one operation that rounds once, and its compilers do so on some
  targets and not on others, so the program has no single arithmetic: how the expression
  is evaluated is a parameter of the model. The first sum has two products, of which at
  most one can be fused into it; the second sum can take the third product fused or
  not. The quotient, and the product by 9 in \<^verbatim>\<open>brightnessToASCII\<close>, are single operations.
\<close>

datatype first_sum = Separate | FusedRed | FusedGreen

type_synonym arith = "first_sum \<times> bool"

definition sum_rg :: "first_sum \<Rightarrow> byte \<Rightarrow> byte \<Rightarrow> rat" where
  "sum_rg i r8 g8 =
     (case i of
        Separate \<Rightarrow>
          f64_add (f64_mul (f64_const (299 / 1000)) (f64_of_uint8 r8))
                  (f64_mul (f64_const (587 / 1000)) (f64_of_uint8 g8))
      | FusedRed \<Rightarrow>
          f64_fma (f64_const (299 / 1000)) (f64_of_uint8 r8)
                  (f64_mul (f64_const (587 / 1000)) (f64_of_uint8 g8))
      | FusedGreen \<Rightarrow>
          f64_fma (f64_const (587 / 1000)) (f64_of_uint8 g8)
                  (f64_mul (f64_const (299 / 1000)) (f64_of_uint8 r8)))"

definition pixel_brightness :: "arith \<Rightarrow> byte \<Rightarrow> byte \<Rightarrow> byte \<Rightarrow> rat" where
  "pixel_brightness ar r8 g8 b8 =
     f64_div
       (if snd ar
        then f64_fma (f64_const (114 / 1000)) (f64_of_uint8 b8) (sum_rg (fst ar) r8 g8)
        else f64_add (sum_rg (fst ar) r8 g8) (f64_mul (f64_const (114 / 1000)) (f64_of_uint8 b8)))
       255"

text \<open>The body of the inner loop of \<^verbatim>\<open>frameToASCII\<close>: the text appended for one pixel.\<close>

definition render_pixel :: "arith \<Rightarrow> color \<Rightarrow> failure + string" where
  "render_pixel ar c =
     (let (r, g, b, a) = color_RGBA c;
          r8 = (ucast (drop_bit 8 r) :: byte);
          g8 = (ucast (drop_bit 8 g) :: byte);
          b8 = (ucast (drop_bit 8 b) :: byte);
          brightness = pixel_brightness ar r8 g8 b8
      in case brightnessToASCII brightness of
           Inl f \<Rightarrow> Inl f
         | Inr char \<Rightarrow> Inr (rgbToAnsi r8 g8 b8 @ [char]))"

function render_row :: "arith \<Rightarrow> image \<Rightarrow> int \<Rightarrow> int \<Rightarrow> string \<Rightarrow> failure + string" where
  "render_row ar img y x builder =
     (if x < X (Max_pt (Rect img)) then
        (case render_pixel ar (image_At img x y) of
           Inl f \<Rightarrow> Inl f
         | Inr s \<Rightarrow> render_row ar img y (x + 1) (builder @ s))
      else Inr builder)"
  by pat_completeness auto
termination
  by (relation "measure (\<lambda>(ar, img, y, x, builder). nat (X (Max_pt (Rect img)) - x))") auto

declare render_row.simps [simp del]

function render_rows :: "arith \<Rightarrow> image \<Rightarrow> int \<Rightarrow> string \<Rightarrow> failure + string" where
  "render_rows ar img y builder =
     (if y < Y (Max_pt (Rect img)) then
        (case render_row ar img y (X (Min_pt (Rect img))) builder of
           Inl f \<Rightarrow> Inl f
         | Inr builder' \<Rightarrow> render_rows ar img (y + 1) (builder' @ ESC # ''[0m'' @ [LF]))
      else Inr builder)"
  by pat_completeness auto
termination
  by (relation "measure (\<lambda>(ar, img, y, builder). nat (Y (Max_pt (Rect img)) - y))") auto

declare render_rows.simps [simp del]

definition frameToASCII :: "arith \<Rightarrow> image \<Rightarrow> failure + string" where
  "frameToASCII ar img = render_rows ar img (Y (Min_pt (Rect img))) []"

subsection \<open>The playback loop\<close>

text \<open>
  What the process does to the outside is a list of events, in order: a write to standard
  output or standard error, the start of the decoder with its command line, the call
  \<^verbatim>\<open>cmd.Process.Kill()\<close>, a sleep (in nanoseconds) and the wait for a line of input.

  The environment of a run is what the program reads from outside: its arguments, the
  result of the terminal size query, the errors of \<^verbatim>\<open>StdoutPipe\<close>, \<^verbatim>\<open>StderrPipe\<close> and
  \<^verbatim>\<open>Start\<close> (\<open>None\<close> for nil), the deliveries of the decoder's pipe, and for each
  iteration of the loop (by its frame count) the time \<^verbatim>\<open>time.Since(startTime)\<close>
  measured, in nanoseconds. The goroutine that drains the decoder's standard error has no
  effect on any of this and is left out.
\<close>

datatype event =
    Stdout string
  | Stderr string
  | StartDecoder "string list"
  | KillDecoder
  | Sleep int
  | Scanln

record env =
  Args :: "string list"
  term_GetSize :: "int \<times> int \<times> error option"
  StdoutPipe_err :: "error option"
  StderrPipe_err :: "error option"
  Start_err :: "error option"
  decoder_output :: stream
  elapsed :: "int \<Rightarrow> int"

definition frameDuration :: int where
  "frameDuration = (1000000 div FPS) * 1000"

definition enter_screen :: string where
  "enter_screen = ESC # ''[?1049h'' @ ESC # ''[?25l''"

definition restore_screen :: string where
  "restore_screen = ESC # ''[?1049l'' @ ESC # ''[?25h''"

definition clear_screen :: string where
  "clear_screen = ESC # ''[H'' @ ESC # ''[2J'' @ ESC # ''[32m''"

definition no_frames_message :: string where
  "no_frames_message = ''Error: Could not read any frames. Check if video file is valid.'' @ [LF]"

definition status_line :: "int \<Rightarrow> string" where
  "status_line frameCount =
     ESC # ''[0mFrame: '' @ fmt_d frameCount @ '' | FPS: '' @ fmt_d FPS @ '' | Press Ctrl+C to exit''"

definition completion_summary :: "int \<Rightarrow> string" where
  "completion_summary frameCount =
     ''Video complete! '' @ fmt_d frameCount @ '' frames played.'' @ [LF] @
     ''Press Enter to exit...'' @ ESC # ''[0m''"

definition decoder_command :: "string \<Rightarrow> int \<Rightarrow> int \<Rightarrow> string list" where
  "decoder_command videoPath WIDTH HEIGHT =
     [''ffmpeg'', ''-i'', videoPath,
      ''-vf'', ''fps='' @ fmt_d FPS @ '',scale='' @ fmt_d WIDTH @ '':'' @ fmt_d HEIGHT,
      ''-f'', ''rawvideo'', ''-pix_fmt'', ''rgb24'', ''-'']"

text \<open>
  The two deferred calls, in the order in which they run when \<^verbatim>\<open>main\<close> returns or
  panics: the closure that leaves the alternate screen, then the kill of the decoder.
\<close>

definition deferred_calls :: "event list" where
  "deferred_calls = [Stdout restore_screen, Stdout [LF], KillDecoder]"

text \<open>
  The loop \<^verbatim>\<open>for { ... }\<close> of \<^verbatim>\<open>main\<close>, with the events so far in \<open>out\<close>. It ends by
  \<^verbatim>\<open>break\<close>, by \<^verbatim>\<open>os.Exit(1)\<close> or by a panic; it need not end at all (a frame of zero
  bytes is read without consuming anything), so its result is an option and \<open>None\<close>
  stands for a loop that runs forever.
\<close>

datatype loop_end = Break int | OsExit int | Panicking

partial_function (option) playback_loop ::
  "arith \<Rightarrow> (int \<Rightarrow> int) \<Rightarrow> reader \<Rightarrow> int \<Rightarrow> int \<Rightarrow> int \<Rightarrow> event list \<Rightarrow>
   (event list \<times> loop_end) option"
where
  "playback_loop ar el rd WIDTH HEIGHT frameCount out =
     (case readRawFrame rd WIDTH HEIGHT of
        (Inl Panic, rd') \<Rightarrow> Some (out, Panicking)
      | (Inl (Err err), rd') \<Rightarrow>
          if frameCount = 0
          then Some (out @ [Stdout restore_screen, Stderr no_frames_message], OsExit 1)
          else Some (out, Break frameCount)
      | (Inr img, rd') \<Rightarrow>
          (case frameToASCII ar img of
             Inl f \<Rightarrow> Some (out, Panicking)
           | Inr asciiFrame \<Rightarrow>
               playback_loop ar el rd' WIDTH HEIGHT (frameCount + 1)
                 (out @ [Stdout (ESC # ''[H'' @ asciiFrame), Stdout (status_line frameCount)] @
                  (if el frameCount < frameDuration
                   then [Sleep (frameDuration - el frameCount)] else []))))"

declare playback_loop.simps [code]

text \<open>
  \<^verbatim>\<open>main\<close>, for the arithmetic of the build and the environment of the run, returns the
  events of the run and the exit code of the process: 0 when \<^verbatim>\<open>main\<close>
  returns, the argument of \<^verbatim>\<open>os.Exit\<close>, which ends the process without running the
  deferred calls, and 2 after a panic, which runs them first.
\<close>

definition main :: "arith \<Rightarrow> env \<Rightarrow> (event list \<times> int) option" where
  "main ar e =
     (if length (Args e) < 2 then
        Some ([Stdout (''Usage: go run main.go <video_file>'' @ [LF])], 1)
      else
        let videoPath = Args e ! 1;
            (WIDTH, HEIGHT) = getTerminalSize (term_GetSize e)
        in case StdoutPipe_err e of
             Some err \<Rightarrow>
               Some ([Stderr (''Error creating pipe: '' @ error_string err @ [LF])], 1)
           | None \<Rightarrow>
        (case StderrPipe_err e of
             Some err \<Rightarrow>
               Some ([Stderr (''Error creating stderr pipe: '' @ error_string err @ [LF])], 1)
           | None \<Rightarrow>
        (case Start_err e of
             Some err \<Rightarrow>
               Some ([Stderr (''Error starting ffmpeg: '' @ error_string err @ [LF]),
                      Stderr (''Make sure ffmpeg is installed and the video file exists'' @ [LF])], 1)
           | None \<Rightarrow>
        (case playback_loop ar (elapsed e) (NewReader (decoder_output e)) WIDTH HEIGHT 0
                [StartDecoder (decoder_command videoPath WIDTH HEIGHT), Stdout enter_screen] of
             None \<Rightarrow> None
           | Some (out, OsExit code) \<Rightarrow> Some (out, code)
           | Some (out, Panicking) \<Rightarrow> Some (out @ deferred_calls, 2)
           | Some (out, Break frameCount) \<Rightarrow>
               Some (out @ [Stdout clear_screen, Stdout (completion_summary frameCount), Scanln] @
                     deferred_calls, 0)))))"

text \<open>
  \<^verbatim>\<open>main.go\<close> installs no signal handler (it does not use \<^verbatim>\<open>os/signal\<close>), so an interrupt
  signal ends the process where it stands, by the default action of the Go runtime, and
  no deferred call runs. \<open>main_interrupted ar e k\<close> is the run in which the signal arrives
  after the first \<open>k\<close> events; a signal that comes after the last event finds the process
  gone.
\<close>

datatype process_end = ExitCode int | KilledBySignal

definition main_interrupted ::
  "arith \<Rightarrow> env \<Rightarrow> nat \<Rightarrow> (event list \<times> process_end) option" where
  "main_interrupted ar e k =
     (case main ar e of
        None \<Rightarrow> None
      | Some (out, code) \<Rightarrow>
          if k < length out then Some (take k out, KilledBySignal) else Some (out, ExitCode code))"

section \<open>Notions used to state the properties\<close>

text \<open>
  A stream whose next deliveries are the given chunks, all with a nil error; and a stream
  \<open>tail\<close> whose next read fails: it delivers \<open>bs\<close> together with the error \<open>err\<close> and
  leaves \<open>rest\<close>, or it is closed, which is \<^verbatim>\<open>io.EOF\<close> with no bytes.
\<close>

definition error_free :: "byte list list \<Rightarrow> stream" where
  "error_free chunks = map (\<lambda>c. (c, None)) chunks"

definition fails_with :: "stream \<Rightarrow> byte list \<Rightarrow> error \<Rightarrow> stream \<Rightarrow> bool" where
  "fails_with tail bs err rest \<longleftrightarrow>
     tail = (bs, Some err) # rest \<or> (tail = [] \<and> bs = [] \<and> err = EOF \<and> rest = [])"

text \<open>
  A reader that fails with \<open>err\<close> after \<open>m\<close> more bytes: it has kept \<open>err\<close> back and its
  buffer holds \<open>m\<close> bytes; or it has kept no error back, and its buffer and the next
  deliveries of its stream, up to and with the one that carries \<open>err\<close>, hold \<open>m\<close> bytes.
\<close>

definition fails_after :: "reader \<Rightarrow> error \<Rightarrow> nat \<Rightarrow> bool" where
  "fails_after b err m \<longleftrightarrow>
     (Reader_err b = Some err \<and> m = length (Reader_buf b)) \<or>
     (Reader_err b = None \<and>
      (\<exists>chunks tail bs rest.
         Reader_rd b = error_free chunks @ tail \<and> fails_with tail bs err rest \<and>
         m = length (Reader_buf b) + length (concat chunks) + length bs))"

text \<open>
  The pixel grid that the specification describes for a raw frame buffer: row-major,
  three bytes per pixel, origin at the top left, every pixel opaque. \<open>filled_grid\<close> is
  the grid filled up to, and without, the pixel \<open>(x0, y0)\<close>.
\<close>

definition pixel_at :: "int \<Rightarrow> byte list \<Rightarrow> int \<Rightarrow> int \<Rightarrow> color" where
  "pixel_at width data x y =
     (let i = nat (3 * (y * width + x)) in RGBA (data ! i) (data ! (i + 1)) (data ! (i + 2)) 255)"

definition pixel_grid :: "int \<Rightarrow> int \<Rightarrow> byte list \<Rightarrow> image" where
  "pixel_grid width height data =
     \<lparr>Rect = \<lparr>Min_pt = \<lparr>X = 0, Y = 0\<rparr>, Max_pt = \<lparr>X = width, Y = height\<rparr>\<rparr>,
      Pix = (\<lambda>(x, y). if 0 \<le> x \<and> x < width \<and> 0 \<le> y \<and> y < height
                        then pixel_at width data x y else RGBA 0 0 0 0)\<rparr>"

definition filled_grid :: "int \<Rightarrow> int \<Rightarrow> byte list \<Rightarrow> int \<Rightarrow> int \<Rightarrow> image" where
  "filled_grid width height data y0 x0 =
     \<lparr>Rect = \<lparr>Min_pt = \<lparr>X = 0, Y = 0\<rparr>, Max_pt = \<lparr>X = width, Y = height\<rparr>\<rparr>,
      Pix = (\<lambda>(x, y). if 0 \<le> x \<and> x < width \<and> 0 \<le> y \<and> (y < y0 \<or> y = y0 \<and> x < x0)
                        then pixel_at width data x y else RGBA 0 0 0 0)\<rparr>"

text \<open>
  The rendered frame as the specification describes it: one line per pixel row, each
  pixel its colour escape followed by its glyph, each row closed by the colour reset and
  a line break.
\<close>

definition glyph_of :: "arith \<Rightarrow> byte \<Rightarrow> byte \<Rightarrow> byte \<Rightarrow> char" where
  "glyph_of ar r g b = ASCII_CHARS ! nat (glyph_idx (pixel_brightness ar r g b))"

definition pixel_text :: "arith \<Rightarrow> color \<Rightarrow> string" where
  "pixel_text ar c = rgbToAnsi (cR c) (cG c) (cB c) @ [glyph_of ar (cR c) (cG c) (cB c)]"

definition row_text :: "arith \<Rightarrow> image \<Rightarrow> int \<Rightarrow> string" where
  "row_text ar img y =
     concat (map (\<lambda>x. pixel_text ar (image_At img x y))
               [X (Min_pt (Rect img)) .. X (Max_pt (Rect img)) - 1]) @ ESC # ''[0m'' @ [LF]"

definition rendered_frame :: "arith \<Rightarrow> image \<Rightarrow> string" where
  "rendered_frame ar img =
     concat (map (row_text ar img) [Y (Min_pt (Rect img)) .. Y (Max_pt (Rect img)) - 1])"

text \<open>
  The decimal numeral of a natural number, and the number that a string of decimal
  digits denotes.
\<close>

fun decimal :: "nat \<Rightarrow> string" where
  "decimal n =
     (if n < 10 then [''0123456789'' ! n]
      else decimal (n div 10) @ [''0123456789'' ! (n mod 10)])"

declare decimal.simps [simp del]

definition digit_value :: "char \<Rightarrow> nat" where
  "digit_value c = length (takeWhile (\<lambda>d. d \<noteq> c) ''0123456789'')"

definition decimal_value :: "string \<Rightarrow> nat" where
  "decimal_value ds = foldl (\<lambda>v c. 10 * v + digit_value c) 0 ds"

text \<open>The status line that the program writes under frame number \<open>i\<close>, character by character.\<close>

definition status_text :: "nat \<Rightarrow> string" where
  "status_text i =
     CHR 0x1B # ''[0mFrame: '' @ decimal i @ '' | FPS: 24 | Press Ctrl+C to exit''"

text \<open>
  The events of one iteration of the loop that shows a frame: the frame written from the
  top left corner, the status line, and the sleep for what is left of the frame interval
  of 41666 microseconds. And the events of \<open>n\<close> iterations in a row that show the first \<open>n\<close>
  frames of a byte sequence, numbered from \<open>i\<close>.
\<close>

definition frame_output :: "(int \<Rightarrow> int) \<Rightarrow> nat \<Rightarrow> string \<Rightarrow> event list" where
  "frame_output el i asciiFrame =
     [Stdout (CHR 0x1B # ''[H'' @ asciiFrame), Stdout (status_text i)] @
     (if el (int i) < 41666000 then [Sleep (41666000 - el (int i))] else [])"

fun frames_output ::
  "arith \<Rightarrow> (int \<Rightarrow> int) \<Rightarrow> int \<Rightarrow> int \<Rightarrow> nat \<Rightarrow> nat \<Rightarrow> byte list \<Rightarrow> event list" where
  "frames_output ar el WIDTH HEIGHT i 0 bytes = []"
| "frames_output ar el WIDTH HEIGHT i (Suc n) bytes =
     frame_output el i
       (rendered_frame ar (pixel_grid WIDTH HEIGHT (take (nat (WIDTH * HEIGHT * 3)) bytes))) @
     frames_output ar el WIDTH HEIGHT (i + 1) n (drop (nat (WIDTH * HEIGHT * 3)) bytes)"

text \<open>
  Two runs on a terminal of 2 columns and 3 rows, that is a geometry of 2 by 1: the
  decoder writes one frame (a white and a black pixel) and closes the pipe; or it closes
  the pipe at once. Every iteration takes 50 ms, more than a frame interval.
\<close>

definition one_frame_run :: env where
  "one_frame_run =
     \<lparr>Args = [''monoscope'', ''clip.mp4''], term_GetSize = (2, 3, None),
      StdoutPipe_err = None, StderrPipe_err = None, Start_err = None,
      decoder_output = [([255, 255, 255, 0, 0], None), ([0], None)],
      elapsed = (\<lambda>i. 50000000)\<rparr>"

definition no_frame_run :: env where
  "no_frame_run = one_frame_run\<lparr>decoder_output := []\<rparr>"

section \<open>The geometry resolver\<close>

text \<open>
  C8: the geometry resolver returns the fixed default 160 by 50 whenever the terminal
  size query fails, whatever the query returned beside the error; when the query
  succeeds it returns the reported width and the reported height less the two rows kept
  for the status line.
\<close>

theorem getTerminalSize_default_and_margin:
  "getTerminalSize (width, height, Some err) = (160, 50) \<and>
   getTerminalSize (width, height, None) = (width, height - 2)"
  by (simp add: getTerminalSize_def)
section \<open>The frame deserializer\<close>

subsection \<open>The accumulating loop\<close>

lemma error_free_simps [simp]:
  "error_free [] = []" "error_free (c # cs) = (c, None) # error_free cs"
  by (simp_all add: error_free_def)

lemma concat_error_free [simp]: "concat (map fst (error_free chunks)) = concat chunks"
  by (induction chunks) simp_all

lemma read_loop_full: "length data \<le> n \<Longrightarrow> read_loop rd data n = (Inr data, rd)"
  by (subst read_loop.simps) simp



text \<open>
  One read from a reader that has kept no error back and has bytes left in its buffer or
  in deliveries without error: it hands over some of these bytes, in order, with a nil
  error.
\<close>

lemma reader_Read_error_free:
  assumes "Reader_err b = None" "Reader_rd b = error_free chunks @ rest" "0 < k"
    "Reader_buf b \<noteq> [] \<or> chunks \<noteq> []"
  shows "\<exists>bs chunks' b'. reader_Read b k = ((bs, None), b') \<and> Reader_err b' = None \<and>
           Reader_rd b' = error_free chunks' @ rest \<and> length bs \<le> k \<and>
           bs @ Reader_buf b' @ concat chunks' = Reader_buf b @ concat chunks"
proof (cases "Reader_buf b = []")
  case False
  with assms show ?thesis
    by (intro exI [of _ "take k (Reader_buf b)"] exI [of _ chunks]
        exI [of _ "b\<lparr>Reader_buf := drop k (Reader_buf b)\<rparr>"])
      (simp add: reader_Read_def)
next
  case True
  with assms(4) obtain c cs where ch: "chunks = c # cs" by (cases chunks) auto
  show ?thesis
  proof (cases "defaultBufSize \<le> k")
    case direct: True
    show ?thesis
    proof (cases "length c \<le> k")
      case fits: True
      with assms True direct ch show ?thesis
        by (intro exI [of _ c] exI [of _ cs] exI [of _ "b\<lparr>Reader_rd := error_free cs @ rest\<rparr>"])
          (simp add: reader_Read_def)
    next
      case False
      with assms True direct ch show ?thesis
        by (intro exI [of _ "take k c"] exI [of _ "drop k c # cs"]
            exI [of _ "b\<lparr>Reader_rd := error_free (drop k c # cs) @ rest\<rparr>"])
          (simp add: reader_Read_def)
    qed
  next
    case buffered: False
    let ?d = defaultBufSize
    have d: "0 < ?d" by (simp add: defaultBufSize_def)
    show ?thesis
    proof (cases "length c \<le> ?d")
      case fits: True
      show ?thesis
      proof (cases "c = []")
        case empty: True
        with assms True buffered ch fits show ?thesis
          by (intro exI [of _ "[]"] exI [of _ cs] exI [of _ "b\<lparr>Reader_rd := error_free cs @ rest\<rparr>"])
            (simp add: reader_Read_def)
      next
        case False
        with assms True buffered ch fits show ?thesis
          by (intro exI [of _ "take k c"] exI [of _ cs]
              exI [of _ "b\<lparr>Reader_buf := drop k c, Reader_err := None, Reader_rd := error_free cs @ rest\<rparr>"])
            (simp add: reader_Read_def)
      qed
    next
      case False
      then have ne: "take ?d c \<noteq> []" using d by (cases c) auto
      have "take k (take ?d c) @ drop k (take ?d c) @ drop ?d c = c"
        by (simp only: append_assoc [symmetric] append_take_drop_id)
      with assms True buffered ch False ne show ?thesis
        by (intro exI [of _ "take k (take ?d c)"] exI [of _ "drop ?d c # cs"]
            exI [of _ "b\<lparr>Reader_buf := drop k (take ?d c), Reader_err := None,
                          Reader_rd := error_free (drop ?d c # cs) @ rest\<rparr>"])
          (simp add: reader_Read_def)
    qed
  qed
qed

text \<open>
  Over a buffer and deliveries without errors that carry enough bytes, the loop fills
  the rest of the frame buffer with the next bytes, whatever the chunks are, and leaves
  the bytes after them in the reader.
\<close>

lemma read_loop_chunks:
  assumes "Reader_err b = None" "Reader_rd b = error_free chunks @ rest" "n \<le> length data"
    "length data - n \<le> length (Reader_buf b @ concat chunks)"
  shows "\<exists>b' chunks'. read_loop b data n =
           (Inr (take n data @ take (length data - n) (Reader_buf b @ concat chunks)), b') \<and>
           Reader_err b' = None \<and> Reader_rd b' = error_free chunks' @ rest \<and>
           Reader_buf b' @ concat chunks' = drop (length data - n) (Reader_buf b @ concat chunks)"
  using assms
proof (induction b data n arbitrary: chunks rule: read_loop.induct)
  case (1 b data n)
  show ?case
  proof (cases "n < length data")
    case False
    with "1.prems" have n: "n = length data" by simp
    with "1.prems" show ?thesis
      by (intro exI [of _ b] exI [of _ chunks]) (simp add: read_loop_full)
  next
    case True
    let ?k = "length data - n"
    let ?all = "Reader_buf b @ concat chunks"
    have k: "0 < ?k" using True by simp
    have "0 < length ?all" using "1.prems"(4) k by linarith
    then have "?all \<noteq> []" by (metis length_greater_0_conv)
    then have ne: "Reader_buf b \<noteq> [] \<or> chunks \<noteq> []" by auto
    from reader_Read_error_free [OF "1.prems"(1,2) k ne] obtain bs chunks1 b1 where
      r: "reader_Read b ?k = ((bs, None), b1)" and e1: "Reader_err b1 = None"
      and rd1: "Reader_rd b1 = error_free chunks1 @ rest" and lb: "length bs \<le> ?k"
      and split: "bs @ Reader_buf b1 @ concat chunks1 = ?all"
      by blast
    let ?data1 = "take n data @ bs @ drop (n + length bs) data"
    let ?all1 = "Reader_buf b1 @ concat chunks1"
    have len: "length ?data1 = length data" using lb True by simp
    have step: "read_loop b data n = read_loop b1 ?data1 (n + length bs)"
      using True r by (subst read_loop.simps) simp
    have all: "?all = bs @ ?all1" using split by simp
    have p3: "n + length bs \<le> length ?data1" using lb True len by simp
    have p4: "length ?data1 - (n + length bs) \<le> length ?all1"
      using "1.prems"(4) lb unfolding len all by simp
    from "1.IH" [OF True r [symmetric] refl refl e1 rd1 p3 p4] obtain b' chunks' where
      res: "read_loop b1 ?data1 (n + length bs) =
              (Inr (take (n + length bs) ?data1 @ take (length ?data1 - (n + length bs)) ?all1), b')"
      and e': "Reader_err b' = None" and rd': "Reader_rd b' = error_free chunks' @ rest"
      and left: "Reader_buf b' @ concat chunks' = drop (length ?data1 - (n + length bs)) ?all1"
      by blast
    have t: "take (n + length bs) ?data1 = take n data @ bs"
      using True by (simp add: take_add)
    have tk: "take ?k ?all = bs @ take (?k - length bs) ?all1"
      unfolding all using lb by simp
    have dk: "drop ?k ?all = drop (?k - length bs) ?all1"
      unfolding all using lb by simp
    have eq: "length ?data1 - (n + length bs) = ?k - length bs" unfolding len by simp
    show ?thesis
      unfolding step res tk dk using e' rd' left unfolding t eq
      by (intro exI [of _ b'] exI [of _ chunks']) simp
  qed
qed

text \<open>
  A reader that is going to report \<open>err\<close> after \<open>m\<close> more bytes, asked for more than \<open>m\<close>
  bytes, either reports the error now or hands over some of the \<open>m\<close> bytes.
\<close>

lemma reader_Read_fails_after:
  assumes "fails_after b err m" "m < k"
  shows "(\<exists>bs b'. reader_Read b k = ((bs, Some err), b')) \<or>
         (\<exists>bs b'. reader_Read b k = ((bs, None), b') \<and> length bs \<le> m \<and>
            fails_after b' err (m - length bs))"
proof (cases "Reader_err b")
  case (Some e)
  with assms(1) have e: "Reader_err b = Some err" and m: "m = length (Reader_buf b)"
    by (auto simp: fails_after_def)
  show ?thesis
  proof (cases "Reader_buf b = []")
    case True
    with e assms(2) show ?thesis by (simp add: reader_Read_def)
  next
    case False
    have "reader_Read b k = ((Reader_buf b, None), b\<lparr>Reader_buf := []\<rparr>)"
      using False assms(2) m by (simp add: reader_Read_def)
    moreover have "fails_after (b\<lparr>Reader_buf := []\<rparr>) err (m - length (Reader_buf b))"
      using e m by (simp add: fails_after_def)
    ultimately show ?thesis using m by auto
  qed
next
  case None
  with assms(1) obtain chunks tail bs rest where
    rd: "Reader_rd b = error_free chunks @ tail" and fw: "fails_with tail bs err rest"
    and m: "m = length (Reader_buf b) + length (concat chunks) + length bs"
    by (auto simp: fails_after_def)
  have k: "0 < k" using assms(2) by simp
  have d: "0 < defaultBufSize" by (simp add: defaultBufSize_def)
  show ?thesis
  proof (cases "Reader_buf b = []")
    case False
    have "reader_Read b k = ((Reader_buf b, None), b\<lparr>Reader_buf := []\<rparr>)"
      using False assms(2) m by (simp add: reader_Read_def)
    moreover have "fails_after (b\<lparr>Reader_buf := []\<rparr>) err (m - length (Reader_buf b))"
      using None rd fw m by (auto simp: fails_after_def)
    ultimately show ?thesis using m by auto
  next
    case True
    show ?thesis
    proof (cases chunks)
      case (Cons c cs)
      have ck: "length c < k" using m assms(2) Cons by simp
      have cm: "length c \<le> m" using m Cons by simp
      show ?thesis
      proof (cases "defaultBufSize \<le> k")
        case direct: True
        have "reader_Read b k = ((c, None), b\<lparr>Reader_rd := error_free cs @ tail\<rparr>)"
          using True None direct k ck rd Cons by (simp add: reader_Read_def)
        moreover have "fails_after (b\<lparr>Reader_rd := error_free cs @ tail\<rparr>) err (m - length c)"
          using None True fw m Cons by (auto simp: fails_after_def)
        ultimately show ?thesis using cm by auto
      next
        case buffered: False
        show ?thesis
        proof (cases "length c \<le> defaultBufSize")
          case fits: True
          show ?thesis
          proof (cases "c = []")
            case empty: True
            have "reader_Read b k = (([], None), b\<lparr>Reader_rd := error_free cs @ tail\<rparr>)"
              using True None buffered k rd Cons empty by (simp add: reader_Read_def)
            moreover have "fails_after (b\<lparr>Reader_rd := error_free cs @ tail\<rparr>) err (m - length c)"
              using None True fw m Cons by (auto simp: fails_after_def)
            ultimately show ?thesis using empty by auto
          next
            case False
            have "reader_Read b k =
                    ((c, None), b\<lparr>Reader_buf := [], Reader_err := None,
                                   Reader_rd := error_free cs @ tail\<rparr>)"
              using True None buffered k rd Cons False fits ck by (simp add: reader_Read_def)
            moreover have "fails_after (b\<lparr>Reader_buf := [], Reader_err := None,
                              Reader_rd := error_free cs @ tail\<rparr>) err (m - length c)"
              using fw m Cons True by (auto simp: fails_after_def)
            ultimately show ?thesis using cm by auto
          qed
        next
          case False
          let ?d = defaultBufSize
          have ne: "take ?d c \<noteq> []" using False d by (cases c) auto
          have lt: "length (take ?d c) = ?d" using False by simp
          have dk: "?d < k" using False ck by simp
          have "reader_Read b k =
                  ((take ?d c, None), b\<lparr>Reader_buf := [], Reader_err := None,
                                 Reader_rd := error_free (drop ?d c # cs) @ tail\<rparr>)"
            using True None buffered k rd Cons False ne dk by (simp add: reader_Read_def)
          moreover have "fails_after (b\<lparr>Reader_buf := [], Reader_err := None,
                            Reader_rd := error_free (drop ?d c # cs) @ tail\<rparr>) err
                           (m - length (take ?d c))"
            unfolding fails_after_def
            using fw m Cons True False
            by (intro disjI2 conjI exI [of _ "drop ?d c # cs"] exI [of _ tail] exI [of _ bs]
                exI [of _ rest]) simp_all
          ultimately show ?thesis using cm False by auto
        qed
      qed
    next
      case Nil
      have bk: "length bs < k" using m assms(2) by simp
      have bm: "m = length bs" using m Nil True by simp
      show ?thesis
      proof (cases "tail = []")
        case closed: True
        with fw have "err = EOF" by (auto simp: fails_with_def)
        with True None rd Nil closed k show ?thesis
          by (auto simp: reader_Read_def)
      next
        case False
        with fw have tail: "tail = (bs, Some err) # rest" by (auto simp: fails_with_def)
        show ?thesis
        proof (cases "defaultBufSize \<le> k")
          case direct: True
          with True None rd Nil tail k bk show ?thesis
            by (simp add: reader_Read_def)
        next
          case buffered: False
          show ?thesis
          proof (cases "length bs \<le> defaultBufSize")
            case fits: True
            show ?thesis
            proof (cases "bs = []")
              case empty: True
              with True None rd Nil tail k buffered show ?thesis
                by (simp add: reader_Read_def)
            next
              case False
              have "reader_Read b k =
                      ((bs, None), b\<lparr>Reader_buf := [], Reader_err := Some err, Reader_rd := rest\<rparr>)"
                using True None buffered k rd Nil tail False fits bk by (simp add: reader_Read_def)
              moreover have "fails_after (b\<lparr>Reader_buf := [], Reader_err := Some err,
                                Reader_rd := rest\<rparr>) err (m - length bs)"
                using bm by (simp add: fails_after_def)
              ultimately show ?thesis using bm by auto
            qed
          next
            case False
            let ?d = defaultBufSize
            have ne: "take ?d bs \<noteq> []" using False d by (cases bs) auto
            have dk: "?d < k" using False bk by simp
            have "reader_Read b k =
                    ((take ?d bs, None), b\<lparr>Reader_buf := [], Reader_err := None,
                                   Reader_rd := (drop ?d bs, Some err) # rest\<rparr>)"
              using True None buffered k rd Nil tail False ne dk by (simp add: reader_Read_def)
            moreover have "fails_after (b\<lparr>Reader_buf := [], Reader_err := None,
                              Reader_rd := (drop ?d bs, Some err) # rest\<rparr>) err
                             (m - length (take ?d bs))"
              unfolding fails_after_def
              using bm False
              by (intro disjI2 conjI exI [of _ "[]"] exI [of _ "(drop ?d bs, Some err) # rest"]
                  exI [of _ "drop ?d bs"] exI [of _ rest]) (simp_all add: fails_with_def)
            ultimately show ?thesis using bm False by auto
          qed
        qed
      qed
    qed
  qed
qed

lemma read_loop_fails:
  assumes "fails_after b err m" "m < length data - n"
  shows "fst (read_loop b data n) = Inl err"
  using assms
proof (induction b data n arbitrary: m rule: read_loop.induct)
  case (1 b data n)
  let ?k = "length data - n"
  have lt: "n < length data" using "1.prems"(2) by simp
  from reader_Read_fails_after [OF "1.prems"] show ?case
  proof (elim disjE exE conjE)
    fix bs b'
    assume "reader_Read b ?k = ((bs, Some err), b')"
    then show ?thesis using lt by (subst read_loop.simps) simp
  next
    fix bs b'
    assume r: "reader_Read b ?k = ((bs, None), b')" and lb: "length bs \<le> m"
      and fa: "fails_after b' err (m - length bs)"
    let ?data1 = "take n data @ bs @ drop (n + length bs) data"
    have len: "length ?data1 = length data" using lb "1.prems"(2) by simp
    have step: "read_loop b data n = read_loop b' ?data1 (n + length bs)"
      using lt r by (subst read_loop.simps) simp
    have "m - length bs < length ?data1 - (n + length bs)"
      unfolding len using lb "1.prems"(2) by simp
    from "1.IH" [OF lt r [symmetric] refl refl fa this] step show ?thesis by simp
  qed
qed




subsection \<open>Building the pixel grid\<close>

lemma image_Set_filled:
  assumes "0 \<le> x" "x < width" "0 \<le> y" "y < height"
  shows "image_Set (filled_grid width height data y x) x y (pixel_at width data x y) =
         filled_grid width height data y (x + 1)"
  using assms by (auto simp: image_Set_def filled_grid_def point_In_def fun_eq_iff)

lemma filled_grid_next_row:
  "filled_grid width height data y width = filled_grid width height data (y + 1) 0"
  by (auto simp: filled_grid_def fun_eq_iff)

lemma filled_grid_all:
  "filled_grid width height data height 0 = pixel_grid width height data"
  by (auto simp: filled_grid_def pixel_grid_def fun_eq_iff)

lemma NewRGBA_filled:
  "0 \<le> width \<Longrightarrow> 0 \<le> height \<Longrightarrow>
   NewRGBA (image_Rect 0 0 width height) = filled_grid width height data 0 0"
  by (auto simp: filled_grid_def NewRGBA_def image_Rect_def fun_eq_iff)

lemma offset_in_range:
  assumes "0 \<le> x" "x < width" "0 \<le> y" "y < height"
  shows "3 * (y * width + x) + 2 < width * height * (3::int)"
proof -
  have "y + 1 \<le> height" using assms by simp
  then have "(y + 1) * width \<le> height * width"
    using assms by (intro mult_right_mono) simp_all
  then have "y * width + x + 1 \<le> width * height"
    using assms by (simp add: algebra_simps)
  then show ?thesis by simp
qed

lemma set_row_filled:
  assumes "0 \<le> x" "x \<le> width" "0 \<le> y" "y < height" "length data = nat (width * height * 3)"
  shows "set_row (filled_grid width height data y x) data width y x (nat (3 * (y * width + x))) =
         Inr (filled_grid width height data y width, nat (3 * (y * width + width)))"
  using assms
proof (induction "nat (width - x)" arbitrary: x)
  case 0
  then have "x = width" by simp
  then show ?case by (subst set_row.simps) simp
next
  case (Suc k)
  then have lt: "x < width" by simp
  have w0: "0 \<le> width" using Suc.prems by simp
  let ?i = "nat (3 * (y * width + x))"
  have nn: "0 \<le> 3 * (y * width + x)" using Suc.prems w0 by simp
  have "3 * (y * width + x) + 2 < width * height * 3"
    using Suc.prems lt by (intro offset_in_range) simp_all
  then have inr: "?i + 2 < length data"
    using Suc.prems(5) nn by (simp add: nat_less_iff)
  have px: "RGBA (data ! ?i) (data ! (?i + 1)) (data ! (?i + 2)) 255 = pixel_at width data x y"
    by (simp add: pixel_at_def Let_def)
  have nxt: "?i + 3 = nat (3 * (y * width + (x + 1)))"
    using nn by (simp add: nat_add_distrib algebra_simps)
  have k: "k = nat (width - (x + 1))" using Suc.hyps(2) by simp
  have IH: "set_row (filled_grid width height data y (x + 1)) data width y (x + 1)
              (nat (3 * (y * width + (x + 1)))) =
            Inr (filled_grid width height data y width, nat (3 * (y * width + width)))"
    using Suc.prems lt by (intro Suc.hyps(1) [OF k]) simp_all
  show ?case
    apply (subst set_row.simps)
    using lt inr Suc.prems
    apply (simp only: if_True px image_Set_filled nxt IH)
    done
qed

lemma set_rows_filled:
  assumes "0 \<le> y" "y \<le> height" "0 \<le> width" "length data = nat (width * height * 3)"
  shows "set_rows (filled_grid width height data y 0) data width height y (nat (3 * (y * width))) =
         Inr (pixel_grid width height data)"
  using assms
proof (induction "nat (height - y)" arbitrary: y)
  case 0
  then have "y = height" by simp
  then show ?case by (subst set_rows.simps) (simp add: filled_grid_all)
next
  case (Suc k)
  then have lt: "y < height" by simp
  have e: "3 * (y * width + width) = 3 * ((y + 1) * width)" by (simp add: algebra_simps)
  have "set_row (filled_grid width height data y 0) data width y 0 (nat (3 * (y * width + 0))) =
        Inr (filled_grid width height data y width, nat (3 * (y * width + width)))"
    using Suc.prems lt by (intro set_row_filled) simp_all
  then have row: "set_row (filled_grid width height data y 0) data width y 0 (nat (3 * (y * width))) =
        Inr (filled_grid width height data (y + 1) 0, nat (3 * ((y + 1) * width)))"
    unfolding e filled_grid_next_row by simp
  have k: "k = nat (height - (y + 1))" using Suc.hyps(2) by simp
  have IH: "set_rows (filled_grid width height data (y + 1) 0) data width height (y + 1)
              (nat (3 * ((y + 1) * width))) = Inr (pixel_grid width height data)"
    using Suc.prems lt by (intro Suc.hyps(1) [OF k]) simp_all
  show ?case
    by (subst set_rows.simps) (simp only: lt if_True row sum.case prod.case IH)
qed

lemma set_rows_pixel_grid:
  assumes "0 \<le> width" "0 \<le> height" "length data = nat (width * height * 3)"
  shows "set_rows (NewRGBA (image_Rect 0 0 width height)) data width height 0 0 =
         Inr (pixel_grid width height data)"
  using set_rows_filled [of 0 height width data] assms
  by (simp add: NewRGBA_filled [of width height data])

lemma image_At_pixel_grid:
  "0 \<le> x \<Longrightarrow> x < width \<Longrightarrow> 0 \<le> y \<Longrightarrow> y < height \<Longrightarrow>
   image_At (pixel_grid width height data) x y =
     RGBA (data ! nat (3 * (y * width + x))) (data ! (nat (3 * (y * width + x)) + 1))
          (data ! (nat (3 * (y * width + x)) + 2)) 255"
  by (simp add: image_At_def pixel_grid_def point_In_def pixel_at_def Let_def)
subsection \<open>Reading a frame\<close>

lemma readRawFrame_error_free:
  assumes "0 \<le> width" "0 \<le> height" "Reader_err b = None" "Reader_rd b = error_free chunks @ rest"
    "width * height * 3 \<le> int (length (Reader_buf b @ concat chunks))"
  shows "\<exists>b' chunks'. readRawFrame b width height =
           (Inr (pixel_grid width height
                   (take (nat (width * height * 3)) (Reader_buf b @ concat chunks))), b') \<and>
           Reader_err b' = None \<and> Reader_rd b' = error_free chunks' @ rest \<and>
           Reader_buf b' @ concat chunks' =
             drop (nat (width * height * 3)) (Reader_buf b @ concat chunks)"
proof -
  let ?N = "nat (width * height * 3)"
  let ?data = "replicate ?N (0::byte)"
  let ?all = "Reader_buf b @ concat chunks"
  have nn: "0 \<le> width * height * 3" using assms by simp
  have "length ?data - 0 \<le> length ?all" using assms(5) by simp
  from read_loop_chunks [OF assms(3,4) _ this] obtain b' chunks' where
    r: "read_loop b ?data 0 = (Inr (take 0 ?data @ take (length ?data - 0) ?all), b')"
    and e: "Reader_err b' = None" and rd: "Reader_rd b' = error_free chunks' @ rest"
    and c: "Reader_buf b' @ concat chunks' = drop (length ?data - 0) ?all"
    by auto
  have "?N \<le> length ?all" using assms(5) by linarith
  then have len: "length (take ?N ?all) = ?N" by (simp only: length_take min_absorb2)
  have "set_rows (NewRGBA (image_Rect 0 0 width height)) (take ?N ?all) width height 0 0 =
        Inr (pixel_grid width height (take ?N ?all))"
    using assms(1,2) len by (rule set_rows_pixel_grid)
  with r e rd c nn show ?thesis
    by (intro exI [of _ b'] exI [of _ chunks']) (simp add: readRawFrame_def Let_def)
qed

lemma readRawFrame_fails:
  assumes "fails_after b err m" "int m < width * height * 3"
  shows "fst (readRawFrame b width height) = Inl (Err err)"
proof -
  let ?N = "nat (width * height * 3)"
  let ?data = "replicate ?N (0::byte)"
  have "m < length ?data - 0" using assms(2) by simp
  from read_loop_fails [OF assms(1) this]
  obtain b' where "read_loop b ?data 0 = (Inl err, b')" by (metis prod.collapse)
  moreover have "\<not> width * height * 3 < 0" using assms(2) by linarith
  ultimately show ?thesis by (simp add: readRawFrame_def Let_def)
qed

lemma fails_afterI:
  assumes "Reader_err b = None" "Reader_rd b = error_free chunks @ tail"
    "fails_with tail bs err rest"
  shows "fails_after b err (length (Reader_buf b @ concat chunks) + length bs)"
  unfolding fails_after_def using assms
  by (intro disjI2 conjI exI [of _ chunks] exI [of _ tail] exI [of _ bs] exI [of _ rest]) simp_all

lemma readRawFrame_failing_read:
  assumes "Reader_err b = None" "Reader_rd b = error_free chunks @ tail"
    "fails_with tail bs err rest"
    "int (length (Reader_buf b @ concat chunks) + length bs) < width * height * 3"
  shows "fst (readRawFrame b width height) = Inl (Err err)"
  using fails_afterI [OF assms(1,2,3)] assms(4) by (rule readRawFrame_fails)





text \<open>
  C10: no lower bound is applied to the result of the geometry resolver. When the query
  succeeds and reports a height of at most 2, the returned height is the reported one
  less 2, which is zero or negative; the fallback of the failure path is (160, 50),
  positive in both components and not reduced by the margin. The rest of the pipeline
  relies on a positive geometry: with a positive width and the negative height that a
  reported height below 2 gives, \<^verbatim>\<open>readRawFrame\<close> panics, and with the height 0 that a
  reported height of 2 gives, it returns an image without pixels and takes no byte from
  the reader.
\<close>

theorem getTerminalSize_no_lower_bound:
  assumes "height \<le> 2"
  shows "snd (getTerminalSize (width, height, None)) = height - 2 \<and>
         snd (getTerminalSize (width, height, None)) \<le> 0 \<and>
         getTerminalSize (width', height', Some err) = (160, 50) \<and>
         0 < fst (getTerminalSize (width', height', Some err)) \<and>
         0 < snd (getTerminalSize (width', height', Some err)) \<and>
         (0 < width \<and> height < 2 \<longrightarrow>
            readRawFrame rd width (snd (getTerminalSize (width, height, None))) = (Inl Panic, rd)) \<and>
         (height = 2 \<longrightarrow>
            readRawFrame rd width (snd (getTerminalSize (width, height, None))) =
              (Inr (NewRGBA (image_Rect 0 0 width 0)), rd))"
proof -
  have neg: "width * (height - 2) * 3 < 0" if "0 < width" "height < 2"
  proof -
    have "width * (height - 2) < 0" using that by (intro mult_pos_neg) simp_all
    then show ?thesis by simp
  qed
  have zero: "readRawFrame rd width 0 = (Inr (NewRGBA (image_Rect 0 0 width 0)), rd)"
    by (simp add: readRawFrame_def Let_def read_loop_full set_rows.simps)
  show ?thesis
    using assms neg zero by (auto simp: getTerminalSize_def readRawFrame_def Let_def)
qed

theorem getTerminalSize_no_lower_bound_witness:
  "getTerminalSize (80, 2, None) = (80, 0) \<and>
   getTerminalSize (80, 1, None) = (80, - 1) \<and>
   getTerminalSize (0, 0, Some EOF) = (160, 50) \<and>
   readRawFrame (NewReader [([1, 2, 3], None)]) 80 (- 1) =
     (Inl Panic, NewReader [([1, 2, 3], None)]) \<and>
   snd (readRawFrame (NewReader [([1, 2, 3], None)]) 80 0) = NewReader [([1, 2, 3], None)]"
  using getTerminalSize_no_lower_bound [of 2 80 0 0 EOF "NewReader [([1, 2, 3], None)]"]
    getTerminalSize_no_lower_bound [of 1 80 0 0 EOF "NewReader [([1, 2, 3], None)]"]
  by (simp add: getTerminalSize_def)

text \<open>
  C1: for a geometry with positive width and height and a reader whose buffer and next
  deliveries carry no error and at least \<open>width * height * 3\<close> bytes, however they are
  cut into chunks, \<^verbatim>\<open>readRawFrame\<close> returns a frame and takes exactly
  \<open>width * height * 3\<close> bytes: the bytes after them are the ones the reader still has. The
  same bytes delivered to a new reader one byte per read, or all in a single read, give
  the same frame. The frame has the rectangle from (0, 0) to (width, height), and its
  pixel \<open>(x, y)\<close> is made of the three bytes at offset \<open>3 * (y * width + x)\<close>: row-major,
  three bytes per pixel, origin at the top left.
\<close>

theorem readRawFrame_chunking:
  assumes "0 < width" "0 < height" "Reader_err b = None" "Reader_rd b = error_free chunks @ rest"
    "bytes = Reader_buf b @ concat chunks" "width * height * 3 \<le> int (length bytes)"
  shows "\<exists>b' chunks' img.
           readRawFrame b width height = (Inr img, b') \<and>
           Reader_err b' = None \<and> Reader_rd b' = error_free chunks' @ rest \<and>
           Reader_buf b' @ concat chunks' = drop (nat (width * height * 3)) bytes \<and>
           fst (readRawFrame (NewReader (error_free (map (\<lambda>x. [x]) bytes))) width height) = Inr img \<and>
           fst (readRawFrame (NewReader (error_free [bytes])) width height) = Inr img \<and>
           Rect img = \<lparr>Min_pt = \<lparr>X = 0, Y = 0\<rparr>, Max_pt = \<lparr>X = width, Y = height\<rparr>\<rparr> \<and>
           (\<forall>x y. 0 \<le> x \<and> x < width \<and> 0 \<le> y \<and> y < height \<longrightarrow>
              image_At img x y =
                RGBA (bytes ! nat (3 * (y * width + x)))
                     (bytes ! (nat (3 * (y * width + x)) + 1))
                     (bytes ! (nat (3 * (y * width + x)) + 2)) 255)"
proof -
  let ?N = "nat (width * height * 3)"
  let ?img = "pixel_grid width height (take ?N bytes)"
  have w: "0 \<le> width" and h: "0 \<le> height" using assms by simp_all
  have enough: "width * height * 3 \<le> int (length (Reader_buf b @ concat chunks))"
    using assms(5,6) by simp
  from readRawFrame_error_free [OF w h assms(3,4) enough] obtain b' chunks' where
    r: "readRawFrame b width height = (Inr ?img, b')"
    and e: "Reader_err b' = None" and rd: "Reader_rd b' = error_free chunks' @ rest"
    and c: "Reader_buf b' @ concat chunks' = drop ?N bytes"
    unfolding assms(5) by blast
  have one: "concat (map (\<lambda>x. [x]) bytes) = bytes" by (induction bytes) simp_all
  have "width * height * 3 \<le>
          int (length (Reader_buf (NewReader (error_free (map (\<lambda>x. [x]) bytes) @ [])) @
                       concat (map (\<lambda>x. [x]) bytes)))"
    using assms(6) by (simp add: one NewReader_def)
  from readRawFrame_error_free [OF w h _ _ this]
  have r1: "fst (readRawFrame (NewReader (error_free (map (\<lambda>x. [x]) bytes))) width height) = Inr ?img"
    by (auto simp: one NewReader_def)
  have "width * height * 3 \<le>
          int (length (Reader_buf (NewReader (error_free [bytes] @ [])) @ concat [bytes]))"
    using assms(6) by (simp add: NewReader_def)
  from readRawFrame_error_free [OF w h _ _ this]
  have r2: "fst (readRawFrame (NewReader (error_free [bytes])) width height) = Inr ?img"
    by (auto simp: NewReader_def)
  have at: "image_At ?img x y =
                RGBA (bytes ! nat (3 * (y * width + x)))
                     (bytes ! (nat (3 * (y * width + x)) + 1))
                     (bytes ! (nat (3 * (y * width + x)) + 2)) 255"
    if "0 \<le> x" "x < width" "0 \<le> y" "y < height" for x y
  proof -
    have "3 * (y * width + x) + 2 < width * height * 3"
      using that by (intro offset_in_range)
    moreover have "0 \<le> 3 * (y * width + x)" using that w by simp
    ultimately have "nat (3 * (y * width + x)) + 2 < ?N" by linarith
    then show ?thesis using that by (simp add: image_At_pixel_grid)
  qed
  have rect: "Rect ?img = \<lparr>Min_pt = \<lparr>X = 0, Y = 0\<rparr>, Max_pt = \<lparr>X = width, Y = height\<rparr>\<rparr>"
    by (simp add: pixel_grid_def)
  show ?thesis
    using r e rd c r1 r2 rect at
    by (intro exI [of _ b'] exI [of _ chunks'] exI [of _ ?img]) blast
qed

theorem readRawFrame_chunking_witness:
  "\<exists>img b'. readRawFrame (NewReader [([1, 2, 3, 4], None), ([5, 6, 7], None), ([], Some EOF)]) 2 1 =
            (Inr img, b') \<and>
         Reader_buf b' @ concat (map fst (Reader_rd b')) = [7] \<and>
         fst (readRawFrame (NewReader (error_free [[1], [2], [3], [4], [5], [6], [7]])) 2 1) = Inr img \<and>
         fst (readRawFrame (NewReader (error_free [[1, 2, 3, 4, 5, 6, 7]])) 2 1) = Inr img \<and>
         image_At img 0 0 = RGBA 1 2 3 255 \<and> image_At img 1 0 = RGBA 4 5 6 255"
proof -
  from readRawFrame_chunking [of 2 1
      "NewReader [([1, 2, 3, 4], None), ([5, 6, 7], None), ([], Some EOF)]"
      "[[1, 2, 3, 4], [5, 6, 7]]" "[([], Some EOF)]" "[1, 2, 3, 4, 5, 6, 7]"]
  obtain b' chunks' img where
    r: "readRawFrame (NewReader [([1, 2, 3, 4], None), ([5, 6, 7], None), ([], Some EOF)]) 2 1 =
          (Inr img, b')"
    and rd: "Reader_rd b' = error_free chunks' @ [([], Some EOF)]"
    and c: "Reader_buf b' @ concat chunks' = [7]"
    and r1: "fst (readRawFrame (NewReader (error_free [[1], [2], [3], [4], [5], [6], [7]])) 2 1) = Inr img"
    and r2: "fst (readRawFrame (NewReader (error_free [[1, 2, 3, 4, 5, 6, 7]])) 2 1) = Inr img"
    and at: "\<forall>x y. 0 \<le> x \<and> x < 2 \<and> 0 \<le> y \<and> y < 1 \<longrightarrow>
              image_At img x y =
                RGBA ([1, 2, 3, 4, 5, 6, 7] ! nat (3 * (y * 2 + x)))
                     ([1, 2, 3, 4, 5, 6, 7] ! (nat (3 * (y * 2 + x)) + 1))
                     ([1, 2, 3, 4, 5, 6, 7] ! (nat (3 * (y * 2 + x)) + 2)) 255"
    by (auto simp: NewReader_def)
  from at have "image_At img 0 0 = RGBA 1 2 3 255" "image_At img 1 0 = RGBA 4 5 6 255"
    by simp_all
  moreover have "Reader_buf b' @ concat (map fst (Reader_rd b')) = [7]"
    using rd c by simp
  ultimately show ?thesis
    using r r1 r2 by (intro exI [of _ img] exI [of _ b']) simp
qed




section \<open>Rounding to float64\<close>

lemma floor_log2_bounds:
  assumes "0 < x"
  shows "2 powi (floor_log2 x) \<le> x" "x < 2 powi (floor_log2 x + 1)"
proof -
  show "2 powi (floor_log2 x) \<le> x"
  proof (cases "1 \<le> x")
    case True
    then have pos: "0 < \<lfloor>x\<rfloor>" by simp
    let ?k = "bitlen \<lfloor>x\<rfloor> - 1"
    from bitlen_bounds [OF pos] have "2 ^ nat ?k \<le> \<lfloor>x\<rfloor>" by simp
    then have "(of_int (2 ^ nat ?k) :: rat) \<le> of_int \<lfloor>x\<rfloor>" by (simp only: of_int_le_iff)
    also have "\<dots> \<le> x" by simp
    finally have "(of_int (2 ^ nat ?k) :: rat) \<le> x" .
    moreover have "(of_int (2 ^ nat ?k) :: rat) = 2 ^ nat ?k" by simp
    ultimately have "(2::rat) ^ nat ?k \<le> x" by linarith
    moreover have "0 \<le> ?k"
      using pos bitlen_eq_zero_iff [of "\<lfloor>x\<rfloor>"] bitlen_nonneg [of "\<lfloor>x\<rfloor>"] by linarith
    ultimately show ?thesis using True by (simp add: floor_log2_def power_int_nonneg_exp)
  next
    case False
    let ?m = "\<lceil>1 / x\<rceil> - 1"
    let ?b = "bitlen ?m"
    have "1 < 1 / x" using False assms by simp
    then have "1 < \<lceil>1 / x\<rceil>" by (simp add: less_ceiling_iff)
    then have pos: "0 < ?m" by simp
    from bitlen_bounds [OF pos] have "?m < 2 ^ nat ?b" by simp
    then have "\<lceil>1 / x\<rceil> \<le> 2 ^ nat ?b" by simp
    then have "(of_int \<lceil>1 / x\<rceil> :: rat) \<le> of_int (2 ^ nat ?b)" by (simp only: of_int_le_iff)
    moreover have "1 / x \<le> of_int \<lceil>1 / x\<rceil>" by simp
    moreover have "(of_int (2 ^ nat ?b) :: rat) = 2 ^ nat ?b" by simp
    ultimately have "1 / x \<le> 2 ^ nat ?b" by linarith
    then have "1 / 2 ^ nat ?b \<le> x" using assms by (simp add: field_simps)
    moreover have "(2::rat) powi (- ?b) = 1 / 2 ^ nat ?b"
      using bitlen_nonneg [of ?m] by (simp add: power_int_minus_divide power_int_nonneg_exp)
    ultimately show ?thesis using False by (simp add: floor_log2_def)
  qed
  show "x < 2 powi (floor_log2 x + 1)"
  proof (cases "1 \<le> x")
    case True
    then have pos: "0 < \<lfloor>x\<rfloor>" by simp
    let ?k = "bitlen \<lfloor>x\<rfloor>"
    from bitlen_bounds [OF pos] have "\<lfloor>x\<rfloor> < 2 ^ nat ?k" by simp
    then have "\<lfloor>x\<rfloor> + 1 \<le> 2 ^ nat ?k" by simp
    then have "(of_int (\<lfloor>x\<rfloor> + 1) :: rat) \<le> of_int (2 ^ nat ?k)" by (simp only: of_int_le_iff)
    moreover have "x < of_int (\<lfloor>x\<rfloor> + 1)" by linarith
    moreover have "(of_int (2 ^ nat ?k) :: rat) = 2 ^ nat ?k" by simp
    ultimately have "x < 2 ^ nat ?k" by linarith
    then show ?thesis using True bitlen_nonneg [of "\<lfloor>x\<rfloor>"]
      by (simp add: floor_log2_def power_int_nonneg_exp)
  next
    case False
    let ?m = "\<lceil>1 / x\<rceil> - 1"
    let ?b = "bitlen ?m"
    have "1 < 1 / x" using False assms by simp
    then have "1 < \<lceil>1 / x\<rceil>" by (simp add: less_ceiling_iff)
    then have pos: "0 < ?m" by simp
    have b1: "1 \<le> ?b" using pos bitlen_eq_zero_iff [of ?m] bitlen_nonneg [of ?m] by linarith
    from bitlen_bounds [OF pos] have "2 ^ nat (?b - 1) \<le> ?m" by simp
    then have "(of_int (2 ^ nat (?b - 1)) :: rat) \<le> of_int ?m" by (simp only: of_int_le_iff)
    moreover have "of_int ?m < 1 / x" by linarith
    moreover have "(of_int (2 ^ nat (?b - 1)) :: rat) = 2 ^ nat (?b - 1)" by simp
    ultimately have "2 ^ nat (?b - 1) < 1 / x" by linarith
    then have "x < 1 / 2 ^ nat (?b - 1)" using assms by (simp add: field_simps)
    moreover have "(2::rat) powi (- ?b + 1) = 1 / 2 ^ nat (?b - 1)"
    proof -
      have "- ?b + 1 = - (?b - 1)" by simp
      then show ?thesis using b1
        by (simp only: power_int_minus_divide) (simp add: power_int_nonneg_exp)
    qed
    ultimately show ?thesis using False by (simp add: floor_log2_def)
  qed
qed

lemma floor_log2_mono:
  assumes "0 < x" "x \<le> y"
  shows "floor_log2 x \<le> floor_log2 y"
proof (rule ccontr)
  assume "\<not> floor_log2 x \<le> floor_log2 y"
  then have "floor_log2 y + 1 \<le> floor_log2 x" by simp
  then have "(2::rat) powi (floor_log2 y + 1) \<le> 2 powi (floor_log2 x)"
    by (intro power_int_increasing) simp_all
  moreover have "y < 2 powi (floor_log2 y + 1)" using assms by (intro floor_log2_bounds) simp
  moreover have "2 powi (floor_log2 x) \<le> x" using assms by (intro floor_log2_bounds)
  ultimately show False using assms by linarith
qed

text \<open>Rounding to an integer never crosses an integer, and keeps the order.\<close>

lemma round_half_even_ge: "of_int a \<le> x \<Longrightarrow> a \<le> round_half_even x"
proof -
  assume "of_int a \<le> x"
  then have "a \<le> \<lfloor>x\<rfloor>" by (simp add: le_floor_iff)
  then show ?thesis by (simp add: round_half_even_def Let_def)
qed

lemma round_half_even_le: "x \<le> of_int a \<Longrightarrow> round_half_even x \<le> a"
proof -
  assume le: "x \<le> of_int a"
  show ?thesis
  proof (cases "x = of_int a")
    case True
    then show ?thesis by (simp add: round_half_even_def Let_def)
  next
    case False
    with le have "x < of_int a" by simp
    then have "\<lfloor>x\<rfloor> < a" by (simp add: floor_less_iff)
    then have "\<lfloor>x\<rfloor> + 1 \<le> a" by simp
    then show ?thesis by (simp add: round_half_even_def Let_def)
  qed
qed

lemma round_half_even_mono:
  assumes "x \<le> y"
  shows "round_half_even x \<le> round_half_even y"
proof (cases "\<lfloor>x\<rfloor> < \<lfloor>y\<rfloor>")
  case True
  then have "\<lfloor>x\<rfloor> + 1 \<le> \<lfloor>y\<rfloor>" by simp
  then have "of_int (\<lfloor>x\<rfloor> + 1) \<le> y" by (simp only: le_floor_iff)
  then have "\<lfloor>x\<rfloor> + 1 \<le> round_half_even y" by (rule round_half_even_ge)
  moreover have "round_half_even x \<le> \<lfloor>x\<rfloor> + 1" by (simp add: round_half_even_def Let_def)
  ultimately show ?thesis by simp
next
  case False
  moreover have "\<lfloor>x\<rfloor> \<le> \<lfloor>y\<rfloor>" using assms by (rule floor_mono)
  ultimately have eq: "\<lfloor>x\<rfloor> = \<lfloor>y\<rfloor>" by simp
  then show ?thesis using assms by (auto simp: round_half_even_def Let_def)
qed

lemma f64_round_nonneg:
  assumes "0 \<le> x"
  shows "0 \<le> f64_round x"
proof -
  have "0 \<le> round_half_even (x / 2 powi f64_exp x)"
    using assms by (intro round_half_even_ge) simp
  then show ?thesis by (simp add: f64_round_def)
qed

lemma f64_round_exp:
  "x \<noteq> 0 \<Longrightarrow> f64_round x = of_int (round_half_even (x / 2 powi f64_exp x)) * 2 powi f64_exp x"
  by (simp add: f64_round_def)

text \<open>
  A positive number rounds to at most the next power of two above its binade, and, when
  it is not subnormal, to at least the power of two that starts the binade.
\<close>

lemma f64_round_upper:
  assumes "0 < x"
  shows "f64_round x \<le> 2 powi (f64_exp x + 53)"
proof -
  let ?e = "f64_exp x"
  have "x < 2 powi (floor_log2 x + 1)" using assms by (rule floor_log2_bounds)
  also have "(2::rat) powi (floor_log2 x + 1) \<le> 2 powi (?e + 53)"
    using assms by (intro power_int_increasing) (simp_all add: f64_exp_def)
  finally have "x < 2 powi (?e + 53)" .
  then have "x / 2 powi ?e < 2 powi (?e + 53) / 2 powi ?e"
    by (intro divide_strict_right_mono) simp_all
  also have "(2::rat) powi (?e + 53) / 2 powi ?e = 2 ^ 53"
    by (simp add: power_int_add)
  finally have "x / 2 powi ?e \<le> of_int (2 ^ 53)" by simp
  then have "round_half_even (x / 2 powi ?e) \<le> 2 ^ 53" by (rule round_half_even_le)
  then have "(of_int (round_half_even (x / 2 powi ?e)) :: rat) \<le> of_int (2 ^ 53)"
    by (simp only: of_int_le_iff)
  then have "of_int (round_half_even (x / 2 powi ?e)) * 2 powi ?e \<le> (of_int (2 ^ 53) :: rat) * 2 powi ?e"
    by (intro mult_right_mono) simp_all
  also have "(of_int (2 ^ 53) :: rat) * 2 powi ?e = 2 powi (?e + 53)"
    by (simp add: power_int_add)
  finally have "of_int (round_half_even (x / 2 powi ?e)) * 2 powi ?e \<le> (2::rat) powi (?e + 53)" .
  moreover have "f64_round x = of_int (round_half_even (x / 2 powi ?e)) * 2 powi ?e"
    using assms by (intro f64_round_exp) simp
  ultimately show ?thesis by (simp only:)
qed

lemma f64_round_lower:
  assumes "0 < x" "- 1074 < f64_exp x"
  shows "2 powi (f64_exp x + 52) \<le> f64_round x"
proof -
  let ?e = "f64_exp x"
  have e: "?e = floor_log2 x - 52" using assms by (simp add: f64_exp_def)
  have "2 powi (floor_log2 x) \<le> x" using assms(1) by (rule floor_log2_bounds)
  then have "2 powi (?e + 52) \<le> x" by (simp add: e)
  then have "2 powi (?e + 52) / 2 powi ?e \<le> x / 2 powi ?e"
    by (intro divide_right_mono) simp_all
  moreover have "(2::rat) powi (?e + 52) / 2 powi ?e = of_int (2 ^ 52)"
    by (simp add: power_int_add)
  ultimately have "of_int (2 ^ 52) \<le> x / 2 powi ?e" by simp
  then have "2 ^ 52 \<le> round_half_even (x / 2 powi ?e)" by (rule round_half_even_ge)
  then have "(of_int (2 ^ 52) :: rat) \<le> of_int (round_half_even (x / 2 powi ?e))"
    by (simp only: of_int_le_iff)
  then have "(of_int (2 ^ 52) :: rat) * 2 powi ?e \<le> of_int (round_half_even (x / 2 powi ?e)) * 2 powi ?e"
    by (intro mult_right_mono) simp_all
  moreover have "(of_int (2 ^ 52) :: rat) * 2 powi ?e = 2 powi (?e + 52)"
    by (simp add: power_int_add)
  moreover have "f64_round x = of_int (round_half_even (x / 2 powi ?e)) * 2 powi ?e"
    using assms by (intro f64_round_exp) simp
  ultimately show ?thesis by (simp only:)
qed

lemma f64_exp_mono:
  assumes "0 < x" "x \<le> y"
  shows "f64_exp x \<le> f64_exp y"
  using floor_log2_mono [OF assms] assms by (simp add: f64_exp_def)

text \<open>Rounding keeps the order of non-negative numbers.\<close>

lemma f64_round_mono:
  assumes "0 \<le> x" "x \<le> y"
  shows "f64_round x \<le> f64_round y"
proof (cases "x = 0")
  case True
  then show ?thesis using assms f64_round_nonneg [of y] by (simp add: f64_round_def)
next
  case False
  then have x: "0 < x" and y: "0 < y" using assms by simp_all
  have le: "f64_exp x \<le> f64_exp y" using x assms(2) by (rule f64_exp_mono)
  show ?thesis
  proof (cases "f64_exp x = f64_exp y")
    case True
    let ?e = "f64_exp y"
    have "x / 2 powi ?e \<le> y / 2 powi ?e" using assms(2) by (intro divide_right_mono) simp_all
    then have "round_half_even (x / 2 powi ?e) \<le> round_half_even (y / 2 powi ?e)"
      by (rule round_half_even_mono)
    then have "(of_int (round_half_even (x / 2 powi ?e)) :: rat) \<le>
               of_int (round_half_even (y / 2 powi ?e))"
      by (simp only: of_int_le_iff)
    then have "of_int (round_half_even (x / 2 powi ?e)) * 2 powi ?e \<le>
               (of_int (round_half_even (y / 2 powi ?e)) :: rat) * 2 powi ?e"
      by (intro mult_right_mono) simp_all
    then show ?thesis using x y True by (simp add: f64_round_exp)
  next
    case False
    with le have lt: "f64_exp x + 1 \<le> f64_exp y" by simp
    have "- 1074 \<le> f64_exp x" by (simp add: f64_exp_def)
    with lt have "- 1074 < f64_exp y" by simp
    with y have "2 powi (f64_exp y + 52) \<le> f64_round y" by (rule f64_round_lower)
    moreover have "f64_round x \<le> 2 powi (f64_exp x + 53)" using x by (rule f64_round_upper)
    moreover have "(2::rat) powi (f64_exp x + 53) \<le> 2 powi (f64_exp y + 52)"
      using lt by (intro power_int_increasing) simp_all
    ultimately show ?thesis by linarith
  qed
qed

subsection \<open>Evaluating the rounding on numerals\<close>

lemma bitlen_numeral_simps:
  "bitlen 1 = 1"
  "bitlen (numeral (num.Bit0 n)) = bitlen (numeral n) + 1"
  "bitlen (numeral (num.Bit1 n)) = bitlen (numeral n) + 1"
proof -
  show "bitlen 1 = 1" by (subst compute_bitlen) simp
  have "numeral (num.Bit0 n) div (2::int) = numeral n" by simp
  then show "bitlen (numeral (num.Bit0 n)) = bitlen (numeral n) + 1"
    by (subst compute_bitlen) simp
  have "numeral (num.Bit1 n) div (2::int) = numeral n" by simp
  then show "bitlen (numeral (num.Bit1 n)) = bitlen (numeral n) + 1"
    by (subst compute_bitlen) simp
qed

lemma floor_numeral_quotient:
  "\<lfloor>numeral a / numeral b :: rat\<rfloor> = numeral a div numeral b"
  "\<lfloor>- (numeral a / numeral b) :: rat\<rfloor> = - numeral a div numeral b"
  "\<lfloor>1 / numeral b :: rat\<rfloor> = 1 div numeral b"
  apply (metis floor_divide_of_int_eq of_int_numeral)
  apply (metis divide_minus_left floor_divide_of_int_eq of_int_neg_numeral of_int_numeral)
  apply (metis floor_divide_of_int_eq of_int_1 of_int_numeral)
  done

lemmas f64_eval = f64_round_def f64_exp_def floor_log2_def round_half_even_def Let_def ceiling_def
  bitlen_numeral_simps f64_add_def f64_mul_def f64_div_def f64_fma_def f64_const_def
  f64_of_uint8_def floor_numeral_quotient

lemma f64_round_9: "f64_round 9 = 9"
  by (simp add: f64_eval)

section \<open>Luminance and glyphs\<close>

text \<open>
  The white pixel in each of the six evaluations: its luminance is 1, except where the
  green product is fused into the first sum, which gives the greatest \<^verbatim>\<open>float64\<close> below 1.
\<close>

lemma pixel_brightness_white:
  "pixel_brightness (Separate, False) 255 255 255 = 1"
  "pixel_brightness (Separate, True) 255 255 255 = 1"
  "pixel_brightness (FusedRed, False) 255 255 255 = 1"
  "pixel_brightness (FusedRed, True) 255 255 255 = 1"
  by (simp_all add: pixel_brightness_def sum_rg_def f64_eval)

lemma pixel_brightness_white_fused_green:
  "pixel_brightness (FusedGreen, False) 255 255 255 = 9007199254740991 / 9007199254740992"
  "pixel_brightness (FusedGreen, True) 255 255 255 = 9007199254740991 / 9007199254740992"
  by (simp_all add: pixel_brightness_def sum_rg_def f64_eval)

lemma arith_cases:
  "ar = (Separate, False) \<or> ar = (Separate, True) \<or> ar = (FusedRed, False) \<or>
   ar = (FusedRed, True) \<or> ar = (FusedGreen, False) \<or> ar = (FusedGreen, True)"
  by (cases ar; cases "fst ar"; cases "snd ar") auto

lemma pixel_brightness_white_cases:
  "pixel_brightness ar 255 255 255 =
     (if fst ar = FusedGreen then 9007199254740991 / 9007199254740992 else 1)"
  using arith_cases [of ar]
  by (auto simp: pixel_brightness_white pixel_brightness_white_fused_green)

lemma pixel_brightness_black_cases:
  "pixel_brightness (Separate, False) 0 0 0 = 0"
  "pixel_brightness (Separate, True) 0 0 0 = 0"
  "pixel_brightness (FusedRed, False) 0 0 0 = 0"
  "pixel_brightness (FusedRed, True) 0 0 0 = 0"
  "pixel_brightness (FusedGreen, False) 0 0 0 = 0"
  "pixel_brightness (FusedGreen, True) 0 0 0 = 0"
  by (simp_all add: pixel_brightness_def sum_rg_def f64_eval)

lemma pixel_brightness_black: "pixel_brightness ar 0 0 0 = 0"
  using arith_cases [of ar] by (auto simp: pixel_brightness_black_cases)

lemma glyph_idx_1: "glyph_idx 1 = 9"
  by (simp add: glyph_idx_def int_of_f64_def ASCII_CHARS_def f64_eval)

lemma glyph_idx_below_1: "glyph_idx (9007199254740991 / 9007199254740992) = 8"
  by (simp add: glyph_idx_def int_of_f64_def ASCII_CHARS_def f64_eval)

lemma glyph_idx_0: "glyph_idx 0 = 0"
  by (simp add: glyph_idx_def int_of_f64_def ASCII_CHARS_def f64_eval)

lemma f64_const_nonneg: "0 \<le> c \<Longrightarrow> 0 \<le> f64_const c"
  by (simp add: f64_const_def f64_round_nonneg)

lemma f64_of_uint8_nonneg: "0 \<le> f64_of_uint8 b"
  by (simp only: f64_of_uint8_def of_nat_0_le_iff)

lemma f64_of_uint8_mono: "a \<le> b \<Longrightarrow> f64_of_uint8 a \<le> f64_of_uint8 b"
  by (simp only: f64_of_uint8_def word_le_nat_alt of_nat_le_iff)

lemma f64_mul_nonneg: "0 \<le> a \<Longrightarrow> 0 \<le> x \<Longrightarrow> 0 \<le> f64_mul a x"
  by (simp add: f64_mul_def f64_round_nonneg)

lemma f64_mul_mono: "0 \<le> a \<Longrightarrow> 0 \<le> x \<Longrightarrow> x \<le> y \<Longrightarrow> f64_mul a x \<le> f64_mul a y"
  unfolding f64_mul_def by (intro f64_round_mono mult_left_mono mult_nonneg_nonneg)

lemma f64_mul_mono_left: "0 \<le> a \<Longrightarrow> 0 \<le> x \<Longrightarrow> x \<le> y \<Longrightarrow> f64_mul x a \<le> f64_mul y a"
  unfolding f64_mul_def by (intro f64_round_mono mult_right_mono mult_nonneg_nonneg)

lemma f64_add_nonneg: "0 \<le> a \<Longrightarrow> 0 \<le> b \<Longrightarrow> 0 \<le> f64_add a b"
  by (simp add: f64_add_def f64_round_nonneg)

lemma f64_add_mono:
  "0 \<le> a \<Longrightarrow> 0 \<le> b \<Longrightarrow> a \<le> a' \<Longrightarrow> b \<le> b' \<Longrightarrow> f64_add a b \<le> f64_add a' b'"
  unfolding f64_add_def by (intro f64_round_mono add_mono add_nonneg_nonneg)

lemma f64_fma_nonneg: "0 \<le> a \<Longrightarrow> 0 \<le> x \<Longrightarrow> 0 \<le> c \<Longrightarrow> 0 \<le> f64_fma a x c"
  by (simp add: f64_fma_def f64_round_nonneg)

lemma f64_fma_mono:
  "0 \<le> a \<Longrightarrow> 0 \<le> x \<Longrightarrow> 0 \<le> c \<Longrightarrow> x \<le> x' \<Longrightarrow> c \<le> c' \<Longrightarrow>
   f64_fma a x c \<le> f64_fma a x' c'"
  unfolding f64_fma_def
  by (intro f64_round_mono add_mono add_nonneg_nonneg mult_left_mono mult_nonneg_nonneg)

lemma f64_div_nonneg: "0 \<le> a \<Longrightarrow> 0 < c \<Longrightarrow> 0 \<le> f64_div a c"
  by (simp add: f64_div_def f64_round_nonneg)

lemma f64_div_mono: "0 \<le> a \<Longrightarrow> a \<le> a' \<Longrightarrow> 0 < c \<Longrightarrow> f64_div a c \<le> f64_div a' c"
  unfolding f64_div_def by (intro f64_round_mono divide_right_mono) simp_all

text \<open>
  Every evaluation, fused or not, is a composition of roundings of sums and products of
  non-negative numbers, and so is non-negative and monotone in each channel.
\<close>

lemma sum_rg_nonneg: "0 \<le> sum_rg i r g"
  unfolding sum_rg_def
  by (cases i)
    (simp_all add: f64_add_nonneg f64_fma_nonneg f64_mul_nonneg f64_const_nonneg
      f64_of_uint8_nonneg)

lemma sum_rg_mono:
  assumes "r \<le> r'" "g \<le> g'"
  shows "sum_rg i r g \<le> sum_rg i r' g'"
proof (cases i)
  case Separate
  show ?thesis
    unfolding sum_rg_def Separate first_sum.case using assms
    by (intro f64_add_mono f64_mul_mono f64_mul_nonneg f64_const_nonneg f64_of_uint8_nonneg
        f64_of_uint8_mono) simp_all
next
  case FusedRed
  show ?thesis
    unfolding sum_rg_def FusedRed first_sum.case using assms
    by (intro f64_fma_mono f64_mul_mono f64_mul_nonneg f64_const_nonneg f64_of_uint8_nonneg
        f64_of_uint8_mono) simp_all
next
  case FusedGreen
  show ?thesis
    unfolding sum_rg_def FusedGreen first_sum.case using assms
    by (intro f64_fma_mono f64_mul_mono f64_mul_nonneg f64_const_nonneg f64_of_uint8_nonneg
        f64_of_uint8_mono) simp_all
qed

lemma pixel_brightness_nonneg: "0 \<le> pixel_brightness ar r g b"
  unfolding pixel_brightness_def
  by (cases "snd ar")
    (simp_all add: f64_div_nonneg f64_add_nonneg f64_fma_nonneg f64_mul_nonneg f64_const_nonneg
      f64_of_uint8_nonneg sum_rg_nonneg)

lemma pixel_brightness_mono:
  assumes "r \<le> r'" "g \<le> g'" "b \<le> b'"
  shows "pixel_brightness ar r g b \<le> pixel_brightness ar r' g' b'"
proof (cases "snd ar")
  case True
  have "f64_fma (f64_const (114 / 1000)) (f64_of_uint8 b) (sum_rg (fst ar) r g) \<le>
        f64_fma (f64_const (114 / 1000)) (f64_of_uint8 b') (sum_rg (fst ar) r' g')"
    using assms
    by (intro f64_fma_mono f64_const_nonneg f64_of_uint8_nonneg f64_of_uint8_mono sum_rg_nonneg
        sum_rg_mono) simp_all
  then show ?thesis
    unfolding pixel_brightness_def using True
    by (simp add: f64_div_mono f64_fma_nonneg f64_const_nonneg f64_of_uint8_nonneg sum_rg_nonneg)
next
  case False
  have "f64_add (sum_rg (fst ar) r g) (f64_mul (f64_const (114 / 1000)) (f64_of_uint8 b)) \<le>
        f64_add (sum_rg (fst ar) r' g') (f64_mul (f64_const (114 / 1000)) (f64_of_uint8 b'))"
    using assms
    by (intro f64_add_mono f64_mul_mono f64_mul_nonneg f64_const_nonneg f64_of_uint8_nonneg
        f64_of_uint8_mono sum_rg_nonneg sum_rg_mono) simp_all
  then show ?thesis
    unfolding pixel_brightness_def using False
    by (simp add: f64_div_mono f64_add_nonneg f64_mul_nonneg f64_const_nonneg
        f64_of_uint8_nonneg sum_rg_nonneg)
qed

lemma pixel_brightness_le_1: "pixel_brightness ar r g b \<le> 1"
proof -
  have "(255::byte) = - 1" by simp
  then have "x \<le> 255" for x :: byte
    by (simp only: word_order.extremum)
  then have "r \<le> 255" "g \<le> 255" "b \<le> 255" by blast+
  then have "pixel_brightness ar r g b \<le> pixel_brightness ar 255 255 255"
    by (rule pixel_brightness_mono)
  also have "\<dots> \<le> 1" by (simp add: pixel_brightness_white_cases)
  finally show ?thesis .
qed

lemma int_of_f64_mono:
  assumes "x \<le> y"
  shows "int_of_f64 x \<le> int_of_f64 y"
proof (cases "0 \<le> x")
  case True
  then show ?thesis using assms by (simp add: int_of_f64_def floor_mono)
next
  case False
  then have c: "\<lceil>x\<rceil> \<le> 0" by (simp add: ceiling_le_iff)
  show ?thesis
  proof (cases "0 \<le> y")
    case True
    then have "0 \<le> \<lfloor>y\<rfloor>" by simp
    with c have "\<lceil>x\<rceil> \<le> \<lfloor>y\<rfloor>" by (rule order_trans)
    then show ?thesis using False True by (simp add: int_of_f64_def)
  next
    case y: False
    have "\<lceil>x\<rceil> \<le> \<lceil>y\<rceil>" using assms by (rule ceiling_mono)
    then show ?thesis using False y by (simp add: int_of_f64_def)
  qed
qed

lemma scaled_brightness_bounds:
  assumes "0 \<le> L" "L \<le> 1"
  shows "0 \<le> int_of_f64 (f64_mul L 9)" "int_of_f64 (f64_mul L 9) \<le> 9"
proof -
  have nn: "0 \<le> f64_mul L 9" using assms by (intro f64_mul_nonneg) simp_all
  then show "0 \<le> int_of_f64 (f64_mul L 9)" by (simp add: int_of_f64_def)
  have "f64_mul L 9 \<le> f64_mul 1 9" using assms by (intro f64_mul_mono_left) simp_all
  also have "f64_mul 1 9 = 9" by (simp add: f64_mul_def f64_round_9)
  finally have "f64_mul L 9 \<le> 9" .
  then have "\<lfloor>f64_mul L 9\<rfloor> \<le> 9" by (simp add: floor_le_iff)
  then show "int_of_f64 (f64_mul L 9) \<le> 9" using nn by (simp add: int_of_f64_def)
qed

lemma glyph_idx_unfold:
  "glyph_idx L = (let idx = int_of_f64 (f64_mul L 9) in if 10 \<le> idx then 9 else idx)"
  by (simp add: glyph_idx_def ASCII_CHARS_def Let_def)

lemma glyph_idx_bounds:
  assumes "0 \<le> L" "L \<le> 1"
  shows "0 \<le> glyph_idx L" "glyph_idx L \<le> 9"
  using scaled_brightness_bounds [OF assms] by (simp_all add: glyph_idx_unfold Let_def)

lemma glyph_idx_mono:
  assumes "0 \<le> x" "x \<le> y"
  shows "glyph_idx x \<le> glyph_idx y"
proof -
  have "f64_mul x 9 \<le> f64_mul y 9" using assms by (intro f64_mul_mono_left) simp_all
  then have "int_of_f64 (f64_mul x 9) \<le> int_of_f64 (f64_mul y 9)" by (rule int_of_f64_mono)
  then show ?thesis by (simp add: glyph_idx_unfold Let_def)
qed

lemma brightnessToASCII_in_range:
  assumes "0 \<le> L" "L \<le> 1"
  shows "brightnessToASCII L = Inr (ASCII_CHARS ! nat (glyph_idx L))"
  using glyph_idx_bounds [OF assms] by (simp add: brightnessToASCII_def Let_def ASCII_CHARS_def)

text \<open>
  C2: for every luminance \<open>L\<close> between 0 and 1, both included, the glyph index that
  \<^verbatim>\<open>brightnessToASCII\<close> computes lies between 0 and \<open>N - 1\<close>, where \<open>N = 10\<close> is the length
  of the gradient, so the call returns one of the 10 characters of the gradient and does
  not panic. The statement holds for every rational \<open>L\<close> in the interval, hence for every
  \<^verbatim>\<open>float64\<close> in it.
\<close>

theorem glyph_index_in_range:
  assumes "0 \<le> L" "L \<le> 1"
  shows "0 \<le> glyph_idx L \<and> glyph_idx L \<le> int (length ASCII_CHARS) - 1 \<and>
         length ASCII_CHARS = 10 \<and>
         brightnessToASCII L = Inr (ASCII_CHARS ! nat (glyph_idx L)) \<and>
         ASCII_CHARS ! nat (glyph_idx L) \<in> set ASCII_CHARS"
proof -
  have len: "length ASCII_CHARS = 10" by (simp add: ASCII_CHARS_def)
  have b: "0 \<le> glyph_idx L" "glyph_idx L \<le> 9" using assms by (rule glyph_idx_bounds)+
  then have "nat (glyph_idx L) < length ASCII_CHARS" using len by simp
  then have "ASCII_CHARS ! nat (glyph_idx L) \<in> set ASCII_CHARS" by (rule nth_mem)
  with b len brightnessToASCII_in_range [OF assms] show ?thesis by simp
qed

theorem glyph_index_in_range_witness:
  "glyph_idx 0 = 0 \<and> glyph_idx 1 = 9 \<and>
   brightnessToASCII 0 = Inr CHR '' '' \<and> brightnessToASCII 1 = Inr CHR ''@'' \<and>
   0 \<le> glyph_idx (1 / 3) \<and> glyph_idx (1 / 3) \<le> 9"
  using glyph_index_in_range [of 0] glyph_index_in_range [of 1] glyph_index_in_range [of "1 / 3"]
  by (simp add: glyph_idx_0 glyph_idx_1 ASCII_CHARS_def)

lemma channel_roundtrip:
  "(ucast (drop_bit 8 ((ucast c :: 32 word) OR push_bit 8 (ucast c))) :: byte) = c"
  by (rule bit_word_eqI) (auto simp: bit_simps dest: bit_imp_le_length)

lemma render_pixel_text: "render_pixel ar c = Inr (pixel_text ar c)"
proof -
  have "brightnessToASCII (pixel_brightness ar (cR c) (cG c) (cB c)) =
        Inr (glyph_of ar (cR c) (cG c) (cB c))"
    unfolding glyph_of_def
    by (intro brightnessToASCII_in_range pixel_brightness_nonneg pixel_brightness_le_1)
  then show ?thesis
    unfolding render_pixel_def color_RGBA_def Let_def prod.case channel_roundtrip
    by (simp add: pixel_text_def)
qed

text \<open>
  C5 says that the white pixel has luminance 1.0, glyph index 9 and the glyph @ under the
  program's arithmetic. Go allows a product and a sum to be fused, as a compiler for a
  target with a fused multiply-add does. In the evaluation that fuses the green product
  into the first sum and the blue product into the second, the luminance of the pixel
  (255, 255, 255) comes out as \<open>1 - 2\<^sup>-\<^sup>5\<^sup>3\<close>, its product with 9 is rounded to a
  number below 9, and the pixel gets the index 8 and the glyph % instead.
\<close>

theorem white_pixel_fused:
  "pixel_brightness (FusedGreen, True) 255 255 255 = 9007199254740991 / 9007199254740992 \<and>
   pixel_brightness (FusedGreen, True) 255 255 255 \<noteq> 1 \<and>
   glyph_idx (pixel_brightness (FusedGreen, True) 255 255 255) = 8 \<and>
   brightnessToASCII (pixel_brightness (FusedGreen, True) 255 255 255) = Inr CHR ''%'' \<and>
   render_pixel (FusedGreen, True) (RGBA 255 255 255 255) = Inr (rgbToAnsi 255 255 255 @ ''%'')"
proof -
  note w = pixel_brightness_white_fused_green(2)
  have c: "brightnessToASCII (9007199254740991 / 9007199254740992) = Inr CHR ''%''"
    by (simp add: brightnessToASCII_def glyph_idx_below_1 ASCII_CHARS_def)
  have p: "render_pixel (FusedGreen, True) (RGBA 255 255 255 255) =
           Inr (rgbToAnsi 255 255 255 @ ''%'')"
    by (simp add: render_pixel_text pixel_text_def glyph_of_def w glyph_idx_below_1 ASCII_CHARS_def)
  show ?thesis
    by (simp add: w glyph_idx_below_1 c p)
qed

text \<open>
  C5, as the code has it. With the gradient of 10 glyphs, the pixel (0, 0, 0) has
  luminance 0 and glyph index 0 and is rendered with the first glyph, a space, however
  the expression is evaluated. The pixel (255, 255, 255) has luminance 1 and glyph index
  9 and is rendered with the last glyph, the character @, when every product and sum is
  rounded on its own, and in every evaluation that does not fuse the green product into
  the first sum; where the green product is fused into the first sum, its luminance is
  \<open>1 - 2\<^sup>-\<^sup>5\<^sup>3\<close>, its index 8 and its glyph the last but one, the character %. The
  index is the truncation of the rounded product of the luminance and 9.
\<close>

theorem white_and_black_pixels:
  "pixel_brightness ar 0 0 0 = 0 \<and>
   glyph_idx (pixel_brightness ar 0 0 0) = 0 \<and>
   brightnessToASCII (pixel_brightness ar 0 0 0) = Inr (hd ASCII_CHARS) \<and>
   hd ASCII_CHARS = CHR '' '' \<and>
   render_pixel ar (RGBA 0 0 0 255) = Inr (rgbToAnsi 0 0 0 @ '' '') \<and>
   last ASCII_CHARS = CHR ''@'' \<and>
   (fst ar \<noteq> FusedGreen \<longrightarrow>
      pixel_brightness ar 255 255 255 = 1 \<and>
      glyph_idx (pixel_brightness ar 255 255 255) = 9 \<and>
      brightnessToASCII (pixel_brightness ar 255 255 255) = Inr (last ASCII_CHARS) \<and>
      render_pixel ar (RGBA 255 255 255 255) = Inr (rgbToAnsi 255 255 255 @ ''@'')) \<and>
   (fst ar = FusedGreen \<longrightarrow>
      pixel_brightness ar 255 255 255 = 1 - 1 / 2 ^ 53 \<and>
      glyph_idx (pixel_brightness ar 255 255 255) = 8 \<and>
      brightnessToASCII (pixel_brightness ar 255 255 255) = Inr CHR ''%'' \<and>
      render_pixel ar (RGBA 255 255 255 255) = Inr (rgbToAnsi 255 255 255 @ ''%''))"
proof -
  note b = pixel_brightness_black [of ar]
  note i1 = glyph_idx_1 and i0 = glyph_idx_0 and i8 = glyph_idx_below_1
  have c1: "brightnessToASCII 1 = Inr CHR ''@''"
    by (simp add: brightnessToASCII_def i1 ASCII_CHARS_def)
  have c0: "brightnessToASCII 0 = Inr CHR '' ''"
    by (simp add: brightnessToASCII_def i0 ASCII_CHARS_def)
  have c8: "brightnessToASCII (9007199254740991 / 9007199254740992) = Inr CHR ''%''"
    by (simp add: brightnessToASCII_def i8 ASCII_CHARS_def)
  have l: "last ASCII_CHARS = CHR ''@''" "hd ASCII_CHARS = CHR '' ''"
    by (simp_all add: ASCII_CHARS_def)
  have v: "(1 - 1 / 2 ^ 53 :: rat) = 9007199254740991 / 9007199254740992" by simp
  have p0: "render_pixel ar (RGBA 0 0 0 255) = Inr (rgbToAnsi 0 0 0 @ '' '')"
    by (simp add: render_pixel_text pixel_text_def glyph_of_def b i0 ASCII_CHARS_def)
  have white: "pixel_brightness ar 255 255 255 = 1 \<and>
      glyph_idx (pixel_brightness ar 255 255 255) = 9 \<and>
      brightnessToASCII (pixel_brightness ar 255 255 255) = Inr (last ASCII_CHARS) \<and>
      render_pixel ar (RGBA 255 255 255 255) = Inr (rgbToAnsi 255 255 255 @ ''@'')"
    if "fst ar \<noteq> FusedGreen"
  proof -
    have w: "pixel_brightness ar 255 255 255 = 1"
      using that by (simp add: pixel_brightness_white_cases)
    have "render_pixel ar (RGBA 255 255 255 255) = Inr (rgbToAnsi 255 255 255 @ ''@'')"
      by (simp add: render_pixel_text pixel_text_def glyph_of_def w i1 ASCII_CHARS_def)
    then show ?thesis by (simp only: w i1 c1 l simp_thms)
  qed
  have fused: "pixel_brightness ar 255 255 255 = 1 - 1 / 2 ^ 53 \<and>
      glyph_idx (pixel_brightness ar 255 255 255) = 8 \<and>
      brightnessToASCII (pixel_brightness ar 255 255 255) = Inr CHR ''%'' \<and>
      render_pixel ar (RGBA 255 255 255 255) = Inr (rgbToAnsi 255 255 255 @ ''%'')"
    if "fst ar = FusedGreen"
  proof -
    have w: "pixel_brightness ar 255 255 255 = 9007199254740991 / 9007199254740992"
      using that by (simp add: pixel_brightness_white_cases)
    have "render_pixel ar (RGBA 255 255 255 255) = Inr (rgbToAnsi 255 255 255 @ ''%'')"
      by (simp add: render_pixel_text pixel_text_def glyph_of_def w i8 ASCII_CHARS_def)
    then show ?thesis by (simp only: w i8 c8 v simp_thms)
  qed
  show ?thesis
    using white fused by (simp only: b i0 c0 l p0 simp_thms) blast
qed

theorem white_and_black_pixels_witness:
  "pixel_brightness (Separate, False) 255 255 255 = 1 \<and>
   glyph_idx (pixel_brightness (Separate, False) 255 255 255) = 9 \<and>
   brightnessToASCII (pixel_brightness (Separate, False) 255 255 255) = Inr CHR ''@'' \<and>
   pixel_brightness (FusedRed, True) 255 255 255 = 1 \<and>
   glyph_idx (pixel_brightness (FusedGreen, False) 255 255 255) = 8 \<and>
   brightnessToASCII (pixel_brightness (FusedGreen, False) 255 255 255) = Inr CHR ''%'' \<and>
   pixel_brightness (FusedGreen, True) 0 0 0 = 0 \<and>
   brightnessToASCII (pixel_brightness (Separate, False) 0 0 0) = Inr CHR '' ''"
  using white_and_black_pixels [of "(Separate, False)"] white_and_black_pixels [of "(FusedRed, True)"]
    white_and_black_pixels [of "(FusedGreen, False)"] white_and_black_pixels [of "(FusedGreen, True)"]
  by (simp add: ASCII_CHARS_def cong: conj_cong)

text \<open>
  C6: the computed luminance does not decrease when a channel grows and the two others
  stay (take the others equal in the premises); hence a pixel whose three channels are
  each at least those of another pixel has a luminance and a glyph index at least as
  large. This is about the rounded \<^verbatim>\<open>float64\<close> computation of the program, in each of
  its evaluations, fused or not.
\<close>

theorem brightness_monotone:
  assumes "r \<le> r'" "g \<le> g'" "b \<le> b'"
  shows "pixel_brightness ar r g b \<le> pixel_brightness ar r' g' b' \<and>
         glyph_idx (pixel_brightness ar r g b) \<le> glyph_idx (pixel_brightness ar r' g' b')"
proof -
  have m: "pixel_brightness ar r g b \<le> pixel_brightness ar r' g' b'"
    using assms by (rule pixel_brightness_mono)
  with pixel_brightness_nonneg [of ar r g b] show ?thesis
    by (simp add: glyph_idx_mono)
qed

theorem brightness_monotone_witness:
  "pixel_brightness (Separate, False) 10 200 33 \<le> pixel_brightness (Separate, False) 11 200 33 \<and>
   pixel_brightness (Separate, False) 10 200 33 \<le> pixel_brightness (Separate, False) 10 201 33 \<and>
   pixel_brightness (Separate, False) 10 200 33 \<le> pixel_brightness (Separate, False) 10 200 34 \<and>
   glyph_idx (pixel_brightness (Separate, False) 10 200 33) \<le>
     glyph_idx (pixel_brightness (Separate, False) 90 201 33) \<and>
   pixel_brightness (FusedGreen, True) 10 200 33 \<le> pixel_brightness (FusedGreen, True) 11 200 33 \<and>
   glyph_idx (pixel_brightness (FusedGreen, True) 10 200 33) \<le>
     glyph_idx (pixel_brightness (FusedGreen, True) 90 201 33)"
  using brightness_monotone [of 10 11 200 200 33 33 "(Separate, False)"]
    brightness_monotone [of 10 10 200 201 33 33 "(Separate, False)"]
    brightness_monotone [of 10 10 200 200 33 34 "(Separate, False)"]
    brightness_monotone [of 10 90 200 201 33 33 "(Separate, False)"]
    brightness_monotone [of 10 11 200 200 33 33 "(FusedGreen, True)"]
    brightness_monotone [of 10 90 200 201 33 33 "(FusedGreen, True)"]
  by simp
section \<open>Rendering a frame\<close>

lemma render_row_text:
  "render_row ar img y x builder =
     Inr (builder @ concat (map (\<lambda>x. pixel_text ar (image_At img x y)) [x .. X (Max_pt (Rect img)) - 1]))"
proof (induction ar img y x builder rule: render_row.induct)
  case (1 ar img y x builder)
  show ?case
  proof (cases "x < X (Max_pt (Rect img))")
    case True
    then have u: "[x .. X (Max_pt (Rect img)) - 1] = x # [x + 1 .. X (Max_pt (Rect img)) - 1]"
      by (subst upto.simps) simp
    show ?thesis
      using True "1.IH" [OF True render_pixel_text]
      by (subst render_row.simps) (simp add: render_pixel_text u)
  next
    case False
    then show ?thesis by (subst render_row.simps) simp
  qed
qed

lemma render_rows_text:
  "render_rows ar img y builder =
     Inr (builder @ concat (map (row_text ar img) [y .. Y (Max_pt (Rect img)) - 1]))"
proof (induction ar img y builder rule: render_rows.induct)
  case (1 ar img y builder)
  show ?case
  proof (cases "y < Y (Max_pt (Rect img))")
    case True
    then have u: "[y .. Y (Max_pt (Rect img)) - 1] = y # [y + 1 .. Y (Max_pt (Rect img)) - 1]"
      by (subst upto.simps) simp
    have row: "render_row ar img y (X (Min_pt (Rect img))) builder =
               Inr (builder @ concat (map (\<lambda>x. pixel_text ar (image_At img x y))
                      [X (Min_pt (Rect img)) .. X (Max_pt (Rect img)) - 1]))"
      by (rule render_row_text)
    have rt: "row_text ar img y =
               concat (map (\<lambda>x. pixel_text ar (image_At img x y))
                      [X (Min_pt (Rect img)) .. X (Max_pt (Rect img)) - 1]) @ ESC # ''[0m'' @ [LF]"
      by (simp add: row_text_def)
    show ?thesis
      using True "1.IH" [OF True row]
      by (subst render_rows.simps) (simp add: row u rt)
  next
    case False
    then show ?thesis by (subst render_rows.simps) simp
  qed
qed

text \<open>\<^verbatim>\<open>frameToASCII\<close> never panics, and its text is the rendered frame of the image.\<close>

lemma frameToASCII_text: "frameToASCII ar img = Inr (rendered_frame ar img)"
  by (simp add: frameToASCII_def render_rows_text rendered_frame_def)

text \<open>
  C7: rendering is a function of the pixel grid alone. In a given build of the program,
  that is for a given evaluation of the luminance expression, \<^verbatim>\<open>frameToASCII\<close> always
  returns a text, and two images with the same rectangle and the same pixels inside it
  give the same text, byte for byte: nothing else, not even what the pixel store holds
  outside the rectangle, has a part in the result.
\<close>

theorem frameToASCII_deterministic:
  assumes "Rect img1 = Rect img2"
    "\<forall>x y. point_In x y (Rect img1) \<longrightarrow> image_At img1 x y = image_At img2 x y"
  shows "\<exists>text. frameToASCII ar img1 = Inr text \<and> frameToASCII ar img2 = Inr text"
proof -
  have "row_text ar img1 y = row_text ar img2 y"
    if "y \<in> set [Y (Min_pt (Rect img1)) .. Y (Max_pt (Rect img1)) - 1]" for y
  proof -
    have "pixel_text ar (image_At img1 x y) = pixel_text ar (image_At img2 x y)"
      if "x \<in> set [X (Min_pt (Rect img1)) .. X (Max_pt (Rect img1)) - 1]" for x
    proof -
      have "point_In x y (Rect img1)" using that \<open>y \<in> _\<close> by (simp add: point_In_def)
      with assms(2) show ?thesis by simp
    qed
    then have "map (\<lambda>x. pixel_text ar (image_At img1 x y))
                 [X (Min_pt (Rect img1)) .. X (Max_pt (Rect img1)) - 1] =
               map (\<lambda>x. pixel_text ar (image_At img2 x y))
                 [X (Min_pt (Rect img1)) .. X (Max_pt (Rect img1)) - 1]"
      by (intro map_cong refl)
    then show ?thesis unfolding row_text_def assms(1) [symmetric] by (simp only:)
  qed
  then have "map (row_text ar img1) [Y (Min_pt (Rect img1)) .. Y (Max_pt (Rect img1)) - 1] =
             map (row_text ar img2) [Y (Min_pt (Rect img1)) .. Y (Max_pt (Rect img1)) - 1]"
    by (intro map_cong refl)
  then have "rendered_frame ar img1 = rendered_frame ar img2"
    unfolding rendered_frame_def assms(1) [symmetric] by (simp only:)
  then show ?thesis by (simp add: frameToASCII_text)
qed

theorem frameToASCII_deterministic_witness:
  "frameToASCII (Separate, False) (pixel_grid 1 1 [255, 255, 255]) =
   frameToASCII (Separate, False) ((pixel_grid 1 1 [255, 255, 255])
     \<lparr>Pix := (Pix (pixel_grid 1 1 [255, 255, 255]))((7, 7) := RGBA 1 2 3 4)\<rparr>)"
  using frameToASCII_deterministic [of "pixel_grid 1 1 [255, 255, 255]"
      "(pixel_grid 1 1 [255, 255, 255])
         \<lparr>Pix := (Pix (pixel_grid 1 1 [255, 255, 255]))((7, 7) := RGBA 1 2 3 4)\<rparr>"
      "(Separate, False)"]
  by (auto simp: pixel_grid_def point_In_def image_At_def)

section \<open>The playback loop\<close>

subsection \<open>Decimal numerals\<close>

lemma below_10: "d < 10 \<Longrightarrow> d \<in> {9, 8, 7, 6, 5, 4, 3, 2, 1, 0 :: nat}"
  by (simp only: insert_iff empty_iff) arith

lemma digit_char: "n < 10 \<Longrightarrow> char_of (48 + n) = ''0123456789'' ! n"
  by (drule below_10) (auto simp: char_of_def bit_0 bit_Suc)

lemma itoa_nat_decimal: "itoa_nat n = decimal n"
proof (induction n rule: decimal.induct)
  case (1 n)
  show ?case
  proof (cases "n < 10")
    case True
    then show ?thesis
      by (subst itoa_nat.simps, subst decimal.simps) (simp add: digit_char)
  next
    case False
    have "n mod 10 < 10" by simp
    then have "char_of (48 + n mod 10) = ''0123456789'' ! (n mod 10)" by (rule digit_char)
    with False "1.IH" show ?thesis
      by (subst itoa_nat.simps, subst decimal.simps) simp
  qed
qed

lemma fmt_d_decimal: "0 \<le> i \<Longrightarrow> fmt_d i = decimal (nat i)"
  by (simp add: fmt_d_def itoa_nat_decimal)

lemma fmt_d_FPS: "fmt_d FPS = ''24''"
  by (simp add: fmt_d_def FPS_def itoa_nat.simps char_of_def bit_0 bit_Suc)

lemma decimal_small:
  "decimal 0 = ''0''" "decimal 1 = ''1''" "decimal (Suc 0) = ''1''" "decimal 2 = ''2''"
  by (subst decimal.simps, simp)+

text \<open>The numeral of a number denotes that number.\<close>

lemma digit_value_digit: "n < 10 \<Longrightarrow> digit_value (''0123456789'' ! n) = n"
  by (drule below_10) (auto simp: digit_value_def)

lemma decimal_value_decimal: "decimal_value (decimal n) = n"
proof (induction n rule: decimal.induct)
  case (1 n)
  show ?case
  proof (cases "n < 10")
    case True
    then show ?thesis
      by (subst decimal.simps) (simp add: decimal_value_def digit_value_digit)
  next
    case False
    have "decimal_value (decimal n) = 10 * decimal_value (decimal (n div 10)) +
            digit_value (''0123456789'' ! (n mod 10))"
      using False by (subst decimal.simps) (simp add: decimal_value_def)
    also have "\<dots> = 10 * (n div 10) + n mod 10"
    proof -
      have "n mod 10 < 10" by simp
      then have "digit_value (''0123456789'' ! (n mod 10)) = n mod 10" by (rule digit_value_digit)
      with "1.IH" [OF False] show ?thesis by (simp only:)
    qed
    also have "\<dots> = n" by simp
    finally show ?thesis .
  qed
qed

subsection \<open>The loop over a stream of frames\<close>

lemma status_line_text: "status_line (int i) = status_text i"
  by (simp add: status_line_def status_text_def fmt_d_decimal fmt_d_FPS ESC_def)

lemma decoder_command_text:
  "0 < W \<Longrightarrow> 0 < H \<Longrightarrow>
   decoder_command videoPath W H =
     [''ffmpeg'', ''-i'', videoPath,
      ''-vf'', ''fps=24,scale='' @ decimal (nat W) @ '':'' @ decimal (nat H),
      ''-f'', ''rawvideo'', ''-pix_fmt'', ''rgb24'', ''-'']"
  by (simp add: decoder_command_def fmt_d_decimal fmt_d_FPS)

text \<open>
  A reader whose buffer and stream hold \<open>n\<close> whole frames without error, and whose stream
  then fails before the next frame is complete: the loop shows the \<open>n\<close> frames and ends,
  by \<^verbatim>\<open>os.Exit(1)\<close> if no frame was ever shown and by \<^verbatim>\<open>break\<close> otherwise.
\<close>

lemma playback_loop_frames:
  assumes "0 < W" "0 < H" "fails_with tail bs err rest"
    "Reader_err b = None" "Reader_rd b = error_free chunks @ tail"
    "int n * (W * H * 3) \<le> int (length (Reader_buf b @ concat chunks))"
    "int (length (Reader_buf b @ concat chunks) + length bs) < (int n + 1) * (W * H * 3)"
  shows "playback_loop ar el b W H (int i) out =
         (if i + n = 0
          then Some (out @ [Stdout restore_screen, Stderr no_frames_message], OsExit 1)
          else Some (out @ frames_output ar el W H i n (Reader_buf b @ concat chunks),
                     Break (int (i + n))))"
  using assms(4-)
proof (induction n arbitrary: b chunks i out)
  case 0
  have "fst (readRawFrame b W H) = Inl (Err err)"
    using 0 by (intro readRawFrame_failing_read [OF _ _ assms(3)]) simp_all
  then obtain b' where "readRawFrame b W H = (Inl (Err err), b')"
    by (metis prod.collapse)
  then show ?case
    by (subst playback_loop.simps) simp
next
  case (Suc n)
  let ?F = "W * H * 3"
  let ?all = "Reader_buf b @ concat chunks"
  let ?img = "pixel_grid W H (take (nat ?F) ?all)"
  have Fpos: "0 < ?F" using assms(1,2) by simp
  have enough: "?F \<le> int (length ?all)"
  proof -
    have "1 * ?F \<le> int (Suc n) * ?F" using Fpos by (intro mult_right_mono) simp_all
    with Suc.prems(3) show ?thesis by linarith
  qed
  from readRawFrame_error_free [OF _ _ Suc.prems(1,2) enough] assms(1,2)
  obtain b' chunks' where
    r: "readRawFrame b W H = (Inr ?img, b')"
    and e': "Reader_err b' = None" and rd': "Reader_rd b' = error_free chunks' @ tail"
    and c: "Reader_buf b' @ concat chunks' = drop (nat ?F) ?all"
    by auto
  let ?all' = "Reader_buf b' @ concat chunks'"
  have "length ?all' = length ?all - nat ?F" by (simp only: c length_drop)
  then have len: "int (length ?all') = int (length ?all) - ?F"
    using enough Fpos by arith
  have p1: "int n * ?F \<le> int (length ?all')"
    using Suc.prems(3) unfolding len by (simp add: algebra_simps)
  have p2: "int (length ?all' + length bs) < (int n + 1) * ?F"
    using Suc.prems(4) len by (simp add: algebra_simps)
  note IH = Suc.IH [OF e' rd' p1 p2, of "Suc i" "out @ frame_output el i (rendered_frame ar ?img)"]
  have step: "playback_loop ar el b W H (int i) out =
              playback_loop ar el b' W H (int (Suc i)) (out @ frame_output el i (rendered_frame ar ?img))"
    by (subst playback_loop.simps)
      (simp add: r frameToASCII_text frame_output_def status_line_text frameDuration_def FPS_def
        ESC_def add.commute)
  show ?case
    unfolding step IH by (simp add: c)
qed

lemma main_end_of_stream:
  assumes "2 \<le> length (Args e)"
    "StdoutPipe_err e = None" "StderrPipe_err e = None" "Start_err e = None"
    "getTerminalSize (term_GetSize e) = (W, H)" "0 < W" "0 < H"
    "decoder_output e = error_free chunks @ tail" "fails_with tail bs err rest"
    "int n * (W * H * 3) \<le> int (length (concat chunks))"
    "int (length (concat chunks) + length bs) < (int n + 1) * (W * H * 3)"
  shows "main ar e =
     (if n = 0
      then Some ([StartDecoder (decoder_command (Args e ! 1) W H), Stdout enter_screen,
                  Stdout restore_screen, Stderr no_frames_message], 1)
      else Some ([StartDecoder (decoder_command (Args e ! 1) W H), Stdout enter_screen] @
                 frames_output ar (elapsed e) W H 0 n (concat chunks) @
                 [Stdout clear_screen, Stdout (completion_summary (int n)), Scanln,
                  Stdout restore_screen, Stdout [LF], KillDecoder], 0))"
proof -
  let ?b = "NewReader (decoder_output e)"
  have b: "Reader_err ?b = None" "Reader_rd ?b = error_free chunks @ tail"
    "Reader_buf ?b @ concat chunks = concat chunks"
    using assms(8) by (simp_all add: NewReader_def)
  have "playback_loop ar (elapsed e) ?b W H (int 0)
          [StartDecoder (decoder_command (Args e ! 1) W H), Stdout enter_screen] =
        (if 0 + n = 0
         then Some ([StartDecoder (decoder_command (Args e ! 1) W H), Stdout enter_screen] @
                    [Stdout restore_screen, Stderr no_frames_message], OsExit 1)
         else Some ([StartDecoder (decoder_command (Args e ! 1) W H), Stdout enter_screen] @
                    frames_output ar (elapsed e) W H 0 n (Reader_buf ?b @ concat chunks),
                    Break (int (0 + n))))"
    using assms(6,7,9) b(1,2) by (rule playback_loop_frames) (simp_all only: b(3) assms(10,11))
  then show ?thesis
    using assms(1-5) by (simp add: main_def Let_def deferred_calls_def b(3))
qed

subsection \<open>Two runs\<close>

lemma fmt_d_bytes: "fmt_d 255 = ''255''" "fmt_d 0 = ''0''"
  by (simp_all add: fmt_d_def itoa_nat.simps char_of_def bit_0 bit_Suc)

lemma glyph_of_unfused:
  "glyph_of (Separate, False) 255 255 255 = CHR ''@''"
  "glyph_of (Separate, False) 0 0 0 = CHR '' ''"
  by (simp_all add: glyph_of_def pixel_brightness_white pixel_brightness_black glyph_idx_1
      glyph_idx_0 ASCII_CHARS_def)

lemma rendered_frame_white_black:
  "rendered_frame (Separate, False) (pixel_grid 2 1 [255, 255, 255, 0, 0, 0]) =
     CHR 0x1B # ''[38;2;255;255;255m@'' @ CHR 0x1B # ''[38;2;0;0;0m '' @
     CHR 0x1B # ''[0m'' @ [CHR 0x0A]"
  by (simp add: rendered_frame_def row_text_def pixel_grid_def image_At_def point_In_def
      pixel_at_def pixel_text_def rgbToAnsi_def fmt_d_bytes glyph_of_unfused ESC_def LF_def
      Let_def upto.simps)

lemma main_one_frame_run:
  "main ar one_frame_run =
     Some ([StartDecoder [''ffmpeg'', ''-i'', ''clip.mp4'', ''-vf'', ''fps=24,scale=2:1'',
                          ''-f'', ''rawvideo'', ''-pix_fmt'', ''rgb24'', ''-''],
            Stdout (CHR 0x1B # ''[?1049h'' @ CHR 0x1B # ''[?25l''),
            Stdout (CHR 0x1B # ''[H'' @ rendered_frame ar (pixel_grid 2 1 [255, 255, 255, 0, 0, 0])),
            Stdout (CHR 0x1B # ''[0mFrame: 0 | FPS: 24 | Press Ctrl+C to exit''),
            Stdout (CHR 0x1B # ''[H'' @ CHR 0x1B # ''[2J'' @ CHR 0x1B # ''[32m''),
            Stdout (''Video complete! 1 frames played.'' @ [CHR 0x0A] @
                    ''Press Enter to exit...'' @ CHR 0x1B # ''[0m''),
            Scanln,
            Stdout (CHR 0x1B # ''[?1049l'' @ CHR 0x1B # ''[?25h''), Stdout [CHR 0x0A],
            KillDecoder], 0)"
  using main_end_of_stream [where e = one_frame_run and W = 2 and H = 1
      and chunks = "[[255, 255, 255, 0, 0], [0]]" and tail = "[]" and bs = "[]" and err = EOF
      and rest = "[]" and n = 1 and ar = ar]
  by (simp add: one_frame_run_def getTerminalSize_def fails_with_def frame_output_def
      status_text_def decoder_command_text decimal_small enter_screen_def restore_screen_def
      clear_screen_def completion_summary_def fmt_d_decimal ESC_def LF_def)

lemma main_no_frame_run:
  "main ar no_frame_run =
     Some ([StartDecoder [''ffmpeg'', ''-i'', ''clip.mp4'', ''-vf'', ''fps=24,scale=2:1'',
                          ''-f'', ''rawvideo'', ''-pix_fmt'', ''rgb24'', ''-''],
            Stdout (CHR 0x1B # ''[?1049h'' @ CHR 0x1B # ''[?25l''),
            Stdout (CHR 0x1B # ''[?1049l'' @ CHR 0x1B # ''[?25h''),
            Stderr (''Error: Could not read any frames. Check if video file is valid.'' @
                    [CHR 0x0A])], 1)"
  using main_end_of_stream [where e = no_frame_run and W = 2 and H = 1
      and chunks = "[]" and tail = "[]" and bs = "[]" and err = EOF and rest = "[]" and n = 0
      and ar = ar]
  by (simp add: no_frame_run_def one_frame_run_def getTerminalSize_def fails_with_def
      decoder_command_text decimal_small enter_screen_def restore_screen_def
      no_frames_message_def ESC_def LF_def)

subsection \<open>The end of the stream\<close>

text \<open>
  C3: the playback loop tells a failing first read from a failing read after at least one
  frame. Let the decoder be started and the geometry be positive, and let the stream
  deliver \<open>n\<close> whole frames and then fail before the next one is complete. If \<open>n = 0\<close>, the
  program, having entered the alternate screen, writes the sequence that leaves it and
  shows the cursor again, writes on standard error that no frames could be read, and
  exits with code 1; no frame was written. If \<open>n > 0\<close>, the program has shown the \<open>n\<close>
  frames, each followed by its status line; it leaves the loop, clears the screen, writes
  the summary with the decimal numeral of the frame count \<open>n\<close>, waits for a line of input,
  runs the deferred calls (leave the alternate screen, line break, kill the decoder) and
  exits with code 0. Every text is given as the characters written.
\<close>

theorem playback_end_of_stream:
  assumes "2 \<le> length (Args e)"
    "StdoutPipe_err e = None" "StderrPipe_err e = None" "Start_err e = None"
    "getTerminalSize (term_GetSize e) = (W, H)" "0 < W" "0 < H"
    "decoder_output e = error_free chunks @ tail" "fails_with tail bs err rest"
    "int n * (W * H * 3) \<le> int (length (concat chunks))"
    "int (length (concat chunks) + length bs) < (int n + 1) * (W * H * 3)"
  shows "(n = 0 \<longrightarrow>
            main ar e =
              Some ([StartDecoder [''ffmpeg'', ''-i'', Args e ! 1, ''-vf'',
                                   ''fps=24,scale='' @ decimal (nat W) @ '':'' @ decimal (nat H),
                                   ''-f'', ''rawvideo'', ''-pix_fmt'', ''rgb24'', ''-''],
                     Stdout (CHR 0x1B # ''[?1049h'' @ CHR 0x1B # ''[?25l''),
                     Stdout (CHR 0x1B # ''[?1049l'' @ CHR 0x1B # ''[?25h''),
                     Stderr (''Error: Could not read any frames. Check if video file is valid.'' @
                             [CHR 0x0A])], 1)) \<and>
         (0 < n \<longrightarrow>
            main ar e =
              Some ([StartDecoder [''ffmpeg'', ''-i'', Args e ! 1, ''-vf'',
                                   ''fps=24,scale='' @ decimal (nat W) @ '':'' @ decimal (nat H),
                                   ''-f'', ''rawvideo'', ''-pix_fmt'', ''rgb24'', ''-''],
                     Stdout (CHR 0x1B # ''[?1049h'' @ CHR 0x1B # ''[?25l'')] @
                    frames_output ar (elapsed e) W H 0 n (concat chunks) @
                    [Stdout (CHR 0x1B # ''[H'' @ CHR 0x1B # ''[2J'' @ CHR 0x1B # ''[32m''),
                     Stdout (''Video complete! '' @ decimal n @ '' frames played.'' @ [CHR 0x0A] @
                             ''Press Enter to exit...'' @ CHR 0x1B # ''[0m''),
                     Scanln,
                     Stdout (CHR 0x1B # ''[?1049l'' @ CHR 0x1B # ''[?25h''), Stdout [CHR 0x0A],
                     KillDecoder], 0) \<and>
            decimal_value (decimal n) = n)"
  using main_end_of_stream [OF assms, of ar] assms(6,7)
  by (simp add: decoder_command_text enter_screen_def restore_screen_def clear_screen_def
      no_frames_message_def completion_summary_def fmt_d_decimal decimal_value_decimal
      ESC_def LF_def)

theorem playback_end_of_stream_witness:
  "main (Separate, False) no_frame_run =
     Some ([StartDecoder [''ffmpeg'', ''-i'', ''clip.mp4'', ''-vf'', ''fps=24,scale=2:1'',
                          ''-f'', ''rawvideo'', ''-pix_fmt'', ''rgb24'', ''-''],
            Stdout (CHR 0x1B # ''[?1049h'' @ CHR 0x1B # ''[?25l''),
            Stdout (CHR 0x1B # ''[?1049l'' @ CHR 0x1B # ''[?25h''),
            Stderr (''Error: Could not read any frames. Check if video file is valid.'' @
                    [CHR 0x0A])], 1) \<and>
   main (Separate, False) one_frame_run =
     Some ([StartDecoder [''ffmpeg'', ''-i'', ''clip.mp4'', ''-vf'', ''fps=24,scale=2:1'',
                          ''-f'', ''rawvideo'', ''-pix_fmt'', ''rgb24'', ''-''],
            Stdout (CHR 0x1B # ''[?1049h'' @ CHR 0x1B # ''[?25l''),
            Stdout (CHR 0x1B # ''[H'' @
                    CHR 0x1B # ''[38;2;255;255;255m@'' @ CHR 0x1B # ''[38;2;0;0;0m '' @
                    CHR 0x1B # ''[0m'' @ [CHR 0x0A]),
            Stdout (CHR 0x1B # ''[0mFrame: 0 | FPS: 24 | Press Ctrl+C to exit''),
            Stdout (CHR 0x1B # ''[H'' @ CHR 0x1B # ''[2J'' @ CHR 0x1B # ''[32m''),
            Stdout (''Video complete! 1 frames played.'' @ [CHR 0x0A] @
                    ''Press Enter to exit...'' @ CHR 0x1B # ''[0m''),
            Scanln,
            Stdout (CHR 0x1B # ''[?1049l'' @ CHR 0x1B # ''[?25h''), Stdout [CHR 0x0A],
            KillDecoder], 0)"
  using playback_end_of_stream [where e = no_frame_run and W = 2 and H = 1
      and chunks = "[]" and tail = "[]" and bs = "[]" and err = EOF and rest = "[]" and n = 0
      and ar = "(Separate, False)"]
    playback_end_of_stream [where e = one_frame_run and W = 2 and H = 1
      and chunks = "[[255, 255, 255, 0, 0], [0]]" and tail = "[]" and bs = "[]" and err = EOF
      and rest = "[]" and n = 1 and ar = "(Separate, False)"]
  by (simp add: no_frame_run_def one_frame_run_def getTerminalSize_def fails_with_def
      frame_output_def status_text_def decimal_small rendered_frame_white_black)

subsection \<open>Exit and interrupt\<close>

text \<open>
  C4 says that on every path on which the process ends after it entered the alternate
  screen, the screen is left again and the decoder is killed before the process ends.
  The program does so when \<^verbatim>\<open>main\<close> returns or panics, by its two deferred calls, and
  not on two other paths. When the first read fails, the program leaves the alternate
  screen by hand and calls \<^verbatim>\<open>os.Exit(1)\<close>, which skips the deferred kill of the decoder:
  the run has started the decoder and has no kill. When an interrupt arrives while a
  frame is on the screen (here after the first four events of a run that shows one
  frame), the process ends at once: the run has entered the alternate screen and has
  neither left it nor killed the decoder.
\<close>

theorem cleanup_skipped_on_exit_and_interrupt:
  "main ar no_frame_run =
     Some ([StartDecoder [''ffmpeg'', ''-i'', ''clip.mp4'', ''-vf'', ''fps=24,scale=2:1'',
                          ''-f'', ''rawvideo'', ''-pix_fmt'', ''rgb24'', ''-''],
            Stdout (CHR 0x1B # ''[?1049h'' @ CHR 0x1B # ''[?25l''),
            Stdout (CHR 0x1B # ''[?1049l'' @ CHR 0x1B # ''[?25h''),
            Stderr (''Error: Could not read any frames. Check if video file is valid.'' @
                    [CHR 0x0A])], 1) \<and>
   KillDecoder \<notin>
     set [StartDecoder [''ffmpeg'', ''-i'', ''clip.mp4'', ''-vf'', ''fps=24,scale=2:1'',
                        ''-f'', ''rawvideo'', ''-pix_fmt'', ''rgb24'', ''-''],
          Stdout (CHR 0x1B # ''[?1049h'' @ CHR 0x1B # ''[?25l''),
          Stdout (CHR 0x1B # ''[?1049l'' @ CHR 0x1B # ''[?25h''),
          Stderr (''Error: Could not read any frames. Check if video file is valid.'' @
                  [CHR 0x0A])] \<and>
   main_interrupted ar one_frame_run 4 =
     Some ([StartDecoder [''ffmpeg'', ''-i'', ''clip.mp4'', ''-vf'', ''fps=24,scale=2:1'',
                          ''-f'', ''rawvideo'', ''-pix_fmt'', ''rgb24'', ''-''],
            Stdout (CHR 0x1B # ''[?1049h'' @ CHR 0x1B # ''[?25l''),
            Stdout (CHR 0x1B # ''[H'' @ rendered_frame ar (pixel_grid 2 1 [255, 255, 255, 0, 0, 0])),
            Stdout (CHR 0x1B # ''[0mFrame: 0 | FPS: 24 | Press Ctrl+C to exit'')],
           KilledBySignal) \<and>
   Stdout (CHR 0x1B # ''[?1049l'' @ CHR 0x1B # ''[?25h'') \<notin>
     set [StartDecoder [''ffmpeg'', ''-i'', ''clip.mp4'', ''-vf'', ''fps=24,scale=2:1'',
                        ''-f'', ''rawvideo'', ''-pix_fmt'', ''rgb24'', ''-''],
          Stdout (CHR 0x1B # ''[?1049h'' @ CHR 0x1B # ''[?25l''),
          Stdout (CHR 0x1B # ''[H'' @ rendered_frame ar (pixel_grid 2 1 [255, 255, 255, 0, 0, 0])),
          Stdout (CHR 0x1B # ''[0mFrame: 0 | FPS: 24 | Press Ctrl+C to exit'')] \<and>
   KillDecoder \<notin>
     set [StartDecoder [''ffmpeg'', ''-i'', ''clip.mp4'', ''-vf'', ''fps=24,scale=2:1'',
                        ''-f'', ''rawvideo'', ''-pix_fmt'', ''rgb24'', ''-''],
          Stdout (CHR 0x1B # ''[?1049h'' @ CHR 0x1B # ''[?25l''),
          Stdout (CHR 0x1B # ''[H'' @ rendered_frame ar (pixel_grid 2 1 [255, 255, 255, 0, 0, 0])),
          Stdout (CHR 0x1B # ''[0mFrame: 0 | FPS: 24 | Press Ctrl+C to exit'')]"
  by (simp add: main_no_frame_run main_one_frame_run main_interrupted_def)

end
